theory Spec2Isabelle
  imports Main "HOL-Library.Signed_Division"
begin

section \<open>Benchmark kernels: 2D convolution and tiled matrix multiplication\<close>

text \<open>
  The repository holds three numeric kernels: a sequential six-loop convolution (the gem5
  benchmark), the same convolution as a CUDA kernel with its host wrapper (the GPGPU-Sim
  benchmark), and a tiled shared-memory matrix multiplication with its host wrapper and
  \<open>main\<close>. This theory embeds them and proves what the specification says about them.

  Conventions of the embedding:
  \<^item> \<open>float\<close> is an arbitrary type \<open>'a\<close> with a zero, an addition and a multiplication and
    no algebraic law at all: every equation proved below holds for any deterministic
    arithmetic, in particular for one that is neither associative nor commutative.
    Sums are therefore written with their order of accumulation.
  \<^item> \<open>int\<close> is HOL's \<open>int\<close>: index arithmetic is exact. Every index the kernels compute is
    bounded by the size of the buffer it addresses (lemmas \<open>in_idx_bound\<close>,
    \<open>wt_idx_bound\<close>), so the model agrees with 32-bit arithmetic whenever the buffer sizes
    themselves are representable.
  \<^item> A buffer is a list; an access outside it is undefined behaviour in C and the error
    \<open>OutOfBounds\<close> here. \<open>exit(1)\<close> is the error \<open>Exit 1\<close>.
  \<^item> A computation returns \<open>None\<close> when it does not return, \<open>Some (Inl e)\<close> when it stops
    with an error and \<open>Some (Inr x)\<close> when it returns \<open>x\<close>.
\<close>

subsection \<open>Memory, errors, loops\<close>

datatype error = OutOfBounds | Exit int

datatype access = ReadInput int | ReadWeight int | WriteOutput int

type_synonym 'a result = "(error + 'a) option"

definition load :: "'a list \<Rightarrow> int \<Rightarrow> 'a result" where
  "load buf idx = (if 0 \<le> idx \<and> idx < int (length buf) then Some (Inr (buf ! nat idx)) else Some (Inl OutOfBounds))"

definition store :: "'a list \<Rightarrow> int \<Rightarrow> 'a \<Rightarrow> 'a list result" where
  "store buf idx v = (if 0 \<le> idx \<and> idx < int (length buf) then Some (Inr (buf[nat idx := v])) else Some (Inl OutOfBounds))"

definition seq :: "'a result \<Rightarrow> ('a \<Rightarrow> 'b result) \<Rightarrow> 'b result" where
  "seq m f = (case m of None \<Rightarrow> None | Some (Inl e) \<Rightarrow> Some (Inl e) | Some (Inr x) \<Rightarrow> f x)"

partial_function (option) for_loop :: "int \<Rightarrow> int \<Rightarrow> (int \<Rightarrow> 's \<Rightarrow> 's result) \<Rightarrow> 's \<Rightarrow> 's result" where
  "for_loop x n body s =
     (if x < n
      then (case body x s of None \<Rightarrow> None | Some (Inl e) \<Rightarrow> Some (Inl e) | Some (Inr s') \<Rightarrow> for_loop (x + 1) n body s')
      else Some (Inr s))"

declare for_loop.simps [code]

definition conv2d_mac :: "'a::{zero,plus,times} list \<Rightarrow> 'a list \<Rightarrow> int \<Rightarrow> int \<Rightarrow> int \<Rightarrow> int \<Rightarrow> int \<Rightarrow> int \<Rightarrow> int \<Rightarrow> int \<Rightarrow> int \<Rightarrow> int \<Rightarrow> 'a \<times> access list \<Rightarrow> ('a \<times> access list) result" where
  "conv2d_mac input weight W J C K h w k i j c = (\<lambda>(sum, log).
     let in_idx = ((h + i) * W + (w + j)) * C + c;
         wt_idx = ((i * J + j) * C + c) * K + k
     in seq (load input in_idx) (\<lambda>a.
        seq (load weight wt_idx) (\<lambda>b.
        Some (Inr (sum + a * b, log @ [ReadInput in_idx, ReadWeight wt_idx])))))"

definition conv2d_window :: "'a::{zero,plus,times} list \<Rightarrow> 'a list \<Rightarrow> int \<Rightarrow> int \<Rightarrow> int \<Rightarrow> int \<Rightarrow> int \<Rightarrow> int \<Rightarrow> int \<Rightarrow> int \<Rightarrow> access list \<Rightarrow> ('a \<times> access list) result" where
  "conv2d_window input weight W I J C K h w k log =
     for_loop 0 I (\<lambda>i.
       for_loop 0 J (\<lambda>j.
         for_loop 0 C (\<lambda>c. conv2d_mac input weight W J C K h w k i j c)))
       (0, log)"

definition conv2d :: "'a::{zero,plus,times} list \<Rightarrow> 'a list \<Rightarrow> 'a list \<Rightarrow> int \<Rightarrow> int \<Rightarrow> int \<Rightarrow> int \<Rightarrow> int \<Rightarrow> int \<Rightarrow> ('a list \<times> access list) result" where
  "conv2d input weight output H W I J C K =
     (let Ho = H - I + 1; Wo = W - J + 1 in
      for_loop 0 Ho (\<lambda>h.
        for_loop 0 Wo (\<lambda>w.
          for_loop 0 K (\<lambda>k (output, log).
            seq (conv2d_window input weight W I J C K h w k log) (\<lambda>(sum, log).
              let out_idx = (h * Wo + w) * K + k in
              seq (store output out_idx sum) (\<lambda>output.
              Some (Inr (output, log @ [WriteOutput out_idx])))))))
        (output, []))"


datatype cudaError = cudaSuccess | cudaErrorMemoryAllocation | cudaErrorInvalidValue | cudaErrorLaunchFailure | cudaErrorUnknown

type_synonym dim3 = "int \<times> int \<times> int"

datatype api = CudaMalloc | CudaMemcpy | CudaDeviceSynchronize | CudaFree

datatype event = Api api cudaError | Launch dim3 dim3

type_synonym 'a heap = "nat \<Rightarrow> 'a list option"

record 'a cuda_env =
  api_status :: "nat \<Rightarrow> cudaError"
  garbage :: "nat \<Rightarrow> 'a"

record 'a cuda_state =
  host :: "'a heap"
  device :: "'a heap"
  brk :: nat
  sticky :: bool
  trace :: "event list"

definition dload :: "'a heap \<Rightarrow> nat \<Rightarrow> int \<Rightarrow> 'a result" where
  "dload mem p idx = (case mem p of None \<Rightarrow> Some (Inl OutOfBounds) | Some buf \<Rightarrow> load buf idx)"

definition dstore :: "'a heap \<Rightarrow> nat \<Rightarrow> int \<Rightarrow> 'a \<Rightarrow> 'a heap result" where
  "dstore mem p idx v = (case mem p of None \<Rightarrow> Some (Inl OutOfBounds)
     | Some buf \<Rightarrow> seq (store buf idx v) (\<lambda>buf'. Some (Inr (mem(p := Some buf')))))"

definition api_result :: "'a cuda_env \<Rightarrow> nat \<Rightarrow> bool \<Rightarrow> 'a cuda_state \<Rightarrow> cudaError" where
  "api_result env site valid s =
     (if api_status env site \<noteq> cudaSuccess then api_status env site
      else if sticky s then cudaErrorLaunchFailure
      else if \<not> valid then cudaErrorInvalidValue
      else cudaSuccess)"

definition cudaMalloc :: "'a cuda_env \<Rightarrow> nat \<Rightarrow> int \<Rightarrow> 'a cuda_state \<Rightarrow> (cudaError \<times> nat \<times> 'a cuda_state) result" where
  "cudaMalloc env site n s =
     (let e = api_result env site (0 \<le> n) s; p = brk s in
      if e = cudaSuccess
      then Some (Inr (e, p, s\<lparr>device := (device s)(p := Some (map (garbage env) [0..<nat n])),
                                 brk := p + 1, trace := trace s @ [Api CudaMalloc e]\<rparr>))
      else Some (Inr (e, p, s\<lparr>brk := p + 1, trace := trace s @ [Api CudaMalloc e]\<rparr>)))"

definition cudaMemcpyHostToDevice :: "'a cuda_env \<Rightarrow> nat \<Rightarrow> nat \<Rightarrow> nat \<Rightarrow> int \<Rightarrow> 'a cuda_state \<Rightarrow> (cudaError \<times> 'a cuda_state) result" where
  "cudaMemcpyHostToDevice env site dst src n s =
     (let valid = (case device s dst of None \<Rightarrow> False | Some d \<Rightarrow> 0 \<le> n \<and> n \<le> int (length d));
          e = api_result env site valid s;
          s' = s\<lparr>trace := trace s @ [Api CudaMemcpy e]\<rparr> in
      if e \<noteq> cudaSuccess then Some (Inr (e, s'))
      else (case host s src of None \<Rightarrow> Some (Inl OutOfBounds)
            | Some h \<Rightarrow>
                if int (length h) < n then Some (Inl OutOfBounds)
                else Some (Inr (e, s'\<lparr>device := (device s)(dst :=
                       Some (take (nat n) h @ drop (nat n) (the (device s dst))))\<rparr>))))"

definition cudaMemcpyDeviceToHost :: "'a cuda_env \<Rightarrow> nat \<Rightarrow> nat \<Rightarrow> nat \<Rightarrow> int \<Rightarrow> 'a cuda_state \<Rightarrow> (cudaError \<times> 'a cuda_state) result" where
  "cudaMemcpyDeviceToHost env site dst src n s =
     (let valid = (case device s src of None \<Rightarrow> False | Some d \<Rightarrow> 0 \<le> n \<and> n \<le> int (length d));
          e = api_result env site valid s;
          s' = s\<lparr>trace := trace s @ [Api CudaMemcpy e]\<rparr> in
      if e \<noteq> cudaSuccess then Some (Inr (e, s'))
      else (case host s dst of None \<Rightarrow> Some (Inl OutOfBounds)
            | Some h \<Rightarrow>
                if int (length h) < n then Some (Inl OutOfBounds)
                else Some (Inr (e, s'\<lparr>host := (host s)(dst :=
                       Some (take (nat n) (the (device s src)) @ drop (nat n) h))\<rparr>))))"

definition cudaDeviceSynchronize :: "'a cuda_env \<Rightarrow> nat \<Rightarrow> 'a cuda_state \<Rightarrow> (cudaError \<times> 'a cuda_state) result" where
  "cudaDeviceSynchronize env site s =
     (let e = api_result env site True s in
      Some (Inr (e, s\<lparr>trace := trace s @ [Api CudaDeviceSynchronize e]\<rparr>)))"

definition cudaFree :: "'a cuda_env \<Rightarrow> nat \<Rightarrow> nat \<Rightarrow> 'a cuda_state \<Rightarrow> (cudaError \<times> 'a cuda_state) result" where
  "cudaFree env site p s =
     (let e = api_result env site (device s p \<noteq> None) s;
          s' = s\<lparr>trace := trace s @ [Api CudaFree e]\<rparr> in
      if e \<noteq> cudaSuccess then Some (Inr (e, s'))
      else Some (Inr (e, s'\<lparr>device := (device s)(p := None)\<rparr>)))"

definition CHECK_CUDA :: "(cudaError \<times> 's) result \<Rightarrow> ('s \<Rightarrow> 'b result) \<Rightarrow> 'b result" where
  "CHECK_CUDA call cont = seq call (\<lambda>(e, s). if e \<noteq> cudaSuccess then Some (Inl (Exit 1)) else cont s)"

definition launch :: "dim3 \<Rightarrow> dim3 \<Rightarrow> (dim3 \<Rightarrow> 'a heap \<Rightarrow> 'a heap result) \<Rightarrow> 'a cuda_state \<Rightarrow> 'a cuda_state result" where
  "launch grid block kernel_block s =
     (if sticky s then Some (Inr s)
      else (case grid of (gx, gy, gz) \<Rightarrow>
        (case for_loop 0 gz (\<lambda>bz. for_loop 0 gy (\<lambda>by. for_loop 0 gx (\<lambda>bx. kernel_block (bx, by, bz)))) (device s) of
           None \<Rightarrow> None
         | Some (Inl e) \<Rightarrow> Some (Inr (s\<lparr>sticky := True, trace := trace s @ [Launch grid block]\<rparr>))
         | Some (Inr mem) \<Rightarrow> Some (Inr (s\<lparr>device := mem, trace := trace s @ [Launch grid block]\<rparr>)))))"

definition each_thread :: "dim3 \<Rightarrow> (dim3 \<Rightarrow> 's \<Rightarrow> 's result) \<Rightarrow> 's \<Rightarrow> 's result" where
  "each_thread blockDim thread = (case blockDim of (bdx, bdy, bdz) \<Rightarrow>
     for_loop 0 bdz (\<lambda>tz. for_loop 0 bdy (\<lambda>ty. for_loop 0 bdx (\<lambda>tx. thread (tx, ty, tz)))))"

definition conv2d_kernel :: "nat \<Rightarrow> nat \<Rightarrow> nat \<Rightarrow> int \<Rightarrow> int \<Rightarrow> int \<Rightarrow> int \<Rightarrow> int \<Rightarrow> int
    \<Rightarrow> dim3 \<Rightarrow> dim3 \<Rightarrow> dim3 \<Rightarrow> 'a::{zero,plus,times} heap \<Rightarrow> 'a heap result" where
  "conv2d_kernel input weight output H W I J C K blockIdx blockDim threadIdx mem =
     (case blockIdx of (bx, by, bz) \<Rightarrow> case blockDim of (bdx, bdy, bdz) \<Rightarrow> case threadIdx of (tx, ty, tz) \<Rightarrow>
      let Ho = H - I + 1; Wo = W - J + 1;
          h = by * bdy + ty; w = bx * bdx + tx; k = bz * bdz + tz
      in if h < Ho \<and> w < Wo \<and> k < K
         then seq (for_loop 0 I (\<lambda>i.
                     for_loop 0 J (\<lambda>j.
                       for_loop 0 C (\<lambda>c sum.
                         let in_idx = ((h + i) * W + (w + j)) * C + c;
                             wt_idx = ((i * J + j) * C + c) * K + k
                         in seq (dload mem input in_idx) (\<lambda>a.
                            seq (dload mem weight wt_idx) (\<lambda>b.
                            Some (Inr (sum + a * b)))))))
                   0)
                (\<lambda>sum. let out_idx = (h * Wo + w) * K + k in dstore mem output out_idx sum)
         else Some (Inr mem))"

definition conv2d_gpgpusim :: "'a::{zero,plus,times} cuda_env \<Rightarrow> nat \<Rightarrow> nat \<Rightarrow> nat \<Rightarrow> int \<Rightarrow> int \<Rightarrow> int \<Rightarrow> int \<Rightarrow> int \<Rightarrow> int
    \<Rightarrow> 'a cuda_state \<Rightarrow> 'a cuda_state result" where
  "conv2d_gpgpusim env input weight output H W I J C K s =
     (let Ho = H - I + 1; Wo = W - J + 1;
          in_size = H * W * C; wt_size = I * J * C * K; out_size = Ho * Wo * K
      in seq (cudaMalloc env 0 in_size s) (\<lambda>(_, d_input, s).
         seq (cudaMalloc env 1 wt_size s) (\<lambda>(_, d_weight, s).
         seq (cudaMalloc env 2 out_size s) (\<lambda>(_, d_output, s).
         seq (cudaMemcpyHostToDevice env 3 d_input input in_size s) (\<lambda>(_, s).
         seq (cudaMemcpyHostToDevice env 4 d_weight weight wt_size s) (\<lambda>(_, s).
         let block = (16, 16, 1);
             grid = ((Wo + 16 - 1) div 16, (Ho + 16 - 1) div 16, (K + 1 - 1) div 1)
         in seq (launch grid block (\<lambda>blockIdx. each_thread block
                   (conv2d_kernel d_input d_weight d_output H W I J C K blockIdx block)) s) (\<lambda>s.
         seq (cudaMemcpyDeviceToHost env 5 output d_output out_size s) (\<lambda>(_, s).
         seq (cudaFree env 6 d_input s) (\<lambda>(_, s).
         seq (cudaFree env 7 d_weight s) (\<lambda>(_, s).
         seq (cudaFree env 8 d_output s) (\<lambda>(_, s).
         Some (Inr s))))))))))))"

definition TILE_M :: int where "TILE_M = 16"

definition TILE_N :: int where "TILE_N = 16"

definition TILE_K :: int where "TILE_K = 16"

record 'a gemm_block =
  sA :: "int \<times> int \<Rightarrow> 'a"
  sB :: "int \<times> int \<Rightarrow> 'a"
  sum_reg :: "int \<times> int \<Rightarrow> 'a"
  syncs :: nat
  global :: "'a heap"

definition shared_load :: "(int \<times> int \<Rightarrow> 'a) \<Rightarrow> int \<Rightarrow> int \<Rightarrow> int \<Rightarrow> int \<Rightarrow> 'a result" where
  "shared_load tile rows cols r c =
     (if 0 \<le> r \<and> r < rows \<and> 0 \<le> c \<and> c < cols then Some (Inr (tile (r, c))) else Some (Inl OutOfBounds))"

definition shared_store :: "(int \<times> int \<Rightarrow> 'a) \<Rightarrow> int \<Rightarrow> int \<Rightarrow> int \<Rightarrow> int \<Rightarrow> 'a \<Rightarrow> (int \<times> int \<Rightarrow> 'a) result" where
  "shared_store tile rows cols r c v =
     (if 0 \<le> r \<and> r < rows \<and> 0 \<le> c \<and> c < cols then Some (Inr (tile((r, c) := v))) else Some (Inl OutOfBounds))"

definition syncthreads :: "'a gemm_block \<Rightarrow> 'a gemm_block result" where
  "syncthreads blk = Some (Inr (blk\<lparr>syncs := syncs blk + 1\<rparr>))"

definition gemm_init :: "dim3 \<Rightarrow> 'a::{zero,plus,times} gemm_block \<Rightarrow> 'a gemm_block result" where
  "gemm_init threadIdx blk = (case threadIdx of (tx, ty, tz) \<Rightarrow>
     Some (Inr (blk\<lparr>sum_reg := (sum_reg blk)((ty, tx) := 0)\<rparr>)))"

definition gemm_load_tiles :: "nat \<Rightarrow> nat \<Rightarrow> int \<Rightarrow> int \<Rightarrow> int \<Rightarrow> dim3 \<Rightarrow> int \<Rightarrow> dim3
    \<Rightarrow> 'a::{zero,plus,times} gemm_block \<Rightarrow> 'a gemm_block result" where
  "gemm_load_tiles A B M N K blockIdx t threadIdx blk =
     (case blockIdx of (bx, by, bz) \<Rightarrow> case threadIdx of (tx, ty, tz) \<Rightarrow>
      let row = by * TILE_M + ty; col = bx * TILE_N + tx;
          tiled_k = t * TILE_K + tx
      in seq (if row < M \<and> tiled_k < K then dload (global blk) A (row * K + tiled_k) else Some (Inr 0)) (\<lambda>a.
         seq (shared_store (sA blk) TILE_M TILE_K ty tx a) (\<lambda>sA'.
         let tiled_row = t * TILE_K + ty
         in seq (if tiled_row < K \<and> col < N then dload (global blk) B (tiled_row * N + col) else Some (Inr 0)) (\<lambda>b.
            seq (shared_store (sB blk) TILE_K TILE_N ty tx b) (\<lambda>sB'.
            Some (Inr (blk\<lparr>sA := sA', sB := sB'\<rparr>)))))))"

definition gemm_compute_tile :: "dim3 \<Rightarrow> 'a::{zero,plus,times} gemm_block \<Rightarrow> 'a gemm_block result" where
  "gemm_compute_tile threadIdx blk = (case threadIdx of (tx, ty, tz) \<Rightarrow>
     seq (for_loop 0 TILE_K (\<lambda>k sum.
            seq (shared_load (sA blk) TILE_M TILE_K ty k) (\<lambda>a.
            seq (shared_load (sB blk) TILE_K TILE_N k tx) (\<lambda>b.
            Some (Inr (sum + a * b)))))
          (sum_reg blk (ty, tx)))
       (\<lambda>sum. Some (Inr (blk\<lparr>sum_reg := (sum_reg blk)((ty, tx) := sum)\<rparr>))))"

definition gemm_store :: "nat \<Rightarrow> int \<Rightarrow> int \<Rightarrow> dim3 \<Rightarrow> dim3 \<Rightarrow> 'a::{zero,plus,times} gemm_block \<Rightarrow> 'a gemm_block result" where
  "gemm_store C M N blockIdx threadIdx blk =
     (case blockIdx of (bx, by, bz) \<Rightarrow> case threadIdx of (tx, ty, tz) \<Rightarrow>
      let row = by * TILE_M + ty; col = bx * TILE_N + tx
      in if row < M \<and> col < N
         then seq (dstore (global blk) C (row * N + col) (sum_reg blk (ty, tx))) (\<lambda>mem.
              Some (Inr (blk\<lparr>global := mem\<rparr>)))
         else Some (Inr blk))"

definition gemm_tile :: "nat \<Rightarrow> nat \<Rightarrow> int \<Rightarrow> int \<Rightarrow> int \<Rightarrow> dim3 \<Rightarrow> dim3 \<Rightarrow> int
    \<Rightarrow> 'a::{zero,plus,times} gemm_block \<Rightarrow> 'a gemm_block result" where
  "gemm_tile A B M N K blockIdx blockDim t blk =
     seq (each_thread blockDim (gemm_load_tiles A B M N K blockIdx t) blk) (\<lambda>blk.
     seq (syncthreads blk) (\<lambda>blk.
     seq (each_thread blockDim gemm_compute_tile blk) (\<lambda>blk.
     syncthreads blk)))"

definition gemm_kernel_block :: "nat \<Rightarrow> nat \<Rightarrow> nat \<Rightarrow> int \<Rightarrow> int \<Rightarrow> int \<Rightarrow> dim3 \<Rightarrow> dim3
    \<Rightarrow> 'a::{zero,plus,times} gemm_block \<Rightarrow> 'a gemm_block result" where
  "gemm_kernel_block A B C M N K blockIdx blockDim blk =
     seq (each_thread blockDim gemm_init blk) (\<lambda>blk.
     seq (for_loop 0 ((K + TILE_K - 1) sdiv TILE_K) (gemm_tile A B M N K blockIdx blockDim) blk) (\<lambda>blk.
     each_thread blockDim (gemm_store C M N blockIdx) blk))"

definition gemm_kernel :: "'a::{zero,plus,times} cuda_env \<Rightarrow> nat \<Rightarrow> nat \<Rightarrow> nat \<Rightarrow> int \<Rightarrow> int \<Rightarrow> int \<Rightarrow> dim3 \<Rightarrow> dim3
    \<Rightarrow> 'a heap \<Rightarrow> 'a heap result" where
  "gemm_kernel env A B C M N K blockDim blockIdx mem =
     seq (gemm_kernel_block A B C M N K blockIdx blockDim
            \<lparr>sA = (\<lambda>(r, c). garbage env (nat (r * TILE_K + c))),
             sB = (\<lambda>(r, c). garbage env (nat (r * TILE_N + c))),
             sum_reg = (\<lambda>_. garbage env 0), syncs = 0, global = mem\<rparr>)
       (\<lambda>blk. Some (Inr (global blk)))"

definition gemm_device :: "'a::{zero,plus,times} cuda_env \<Rightarrow> nat \<Rightarrow> nat \<Rightarrow> int \<Rightarrow> int \<Rightarrow> int
    \<Rightarrow> 'a cuda_state \<Rightarrow> (nat \<times> nat \<times> nat \<times> 'a cuda_state) result" where
  "gemm_device env A B M N K s =
     (let sizeA = M * K; sizeB = K * N; sizeC = M * N
      in CHECK_CUDA (cudaMalloc env 0 sizeA s) (\<lambda>(dA, s).
         CHECK_CUDA (cudaMalloc env 1 sizeB s) (\<lambda>(dB, s).
         CHECK_CUDA (cudaMalloc env 2 sizeC s) (\<lambda>(dC, s).
         CHECK_CUDA (cudaMemcpyHostToDevice env 3 dA A sizeA s) (\<lambda>s.
         CHECK_CUDA (cudaMemcpyHostToDevice env 4 dB B sizeB s) (\<lambda>s.
         let block = (TILE_N, TILE_M, 1);
             grid = ((N + TILE_N - 1) sdiv TILE_N, (M + TILE_M - 1) sdiv TILE_M, 1)
         in seq (launch grid block (gemm_kernel env dA dB dC M N K block) s) (\<lambda>s.
         CHECK_CUDA (cudaDeviceSynchronize env 5 s) (\<lambda>s.
         Some (Inr (dA, dB, dC, s))))))))))"

definition gemm_kernel_test :: "'a::{zero,plus,times} cuda_env \<Rightarrow> nat \<Rightarrow> nat \<Rightarrow> nat \<Rightarrow> int \<Rightarrow> int \<Rightarrow> int
    \<Rightarrow> 'a cuda_state \<Rightarrow> 'a cuda_state result" where
  "gemm_kernel_test env A B C M N K s =
     seq (gemm_device env A B M N K s) (\<lambda>(dA, dB, dC, s).
     CHECK_CUDA (cudaFree env 6 dA s) (\<lambda>s.
     CHECK_CUDA (cudaFree env 7 dB s) (\<lambda>s.
     CHECK_CUDA (cudaFree env 8 dC s) (\<lambda>s.
     Some (Inr s)))))"

definition malloc :: "'a cuda_env \<Rightarrow> int \<Rightarrow> 'a cuda_state \<Rightarrow> nat \<times> 'a cuda_state" where
  "malloc env n s = (let p = brk s in
     (p, s\<lparr>host := (host s)(p := Some (map (garbage env) [0..<nat n])), brk := p + 1\<rparr>))"

definition free :: "nat \<Rightarrow> 'a cuda_state \<Rightarrow> 'a cuda_state" where
  "free p s = s\<lparr>host := (host s)(p := None)\<rparr>"

definition fill :: "nat \<Rightarrow> int \<Rightarrow> 'a \<Rightarrow> 'a cuda_state \<Rightarrow> 'a cuda_state result" where
  "fill p n v s = for_loop 0 n (\<lambda>i s. seq (dstore (host s) p i v) (\<lambda>h. Some (Inr (s\<lparr>host := h\<rparr>)))) s"

definition gemm_main_init :: "'a::{zero,one,plus,times} cuda_env \<Rightarrow> 'a cuda_state
    \<Rightarrow> (nat \<times> nat \<times> nat \<times> int \<times> int \<times> int \<times> 'a cuda_state) result" where
  "gemm_main_init env s =
     (let M = 64; N = 64; K = 64;
          sizeA = M * K; sizeB = K * N; sizeC = M * N
      in case malloc env sizeA s of (A, s) \<Rightarrow>
         case malloc env sizeB s of (B, s) \<Rightarrow>
         case malloc env sizeC s of (C, s) \<Rightarrow>
         seq (fill A sizeA 1 s) (\<lambda>s.
         seq (fill B sizeB 1 s) (\<lambda>s.
         seq (fill C sizeC 0 s) (\<lambda>s.
         Some (Inr (A, B, C, M, N, K, s))))))"


definition ordered_sum :: "'a::{zero,plus} list \<Rightarrow> 'a" where
  "ordered_sum xs = foldl (+) 0 xs"

definition conv_taps :: "int \<Rightarrow> int \<Rightarrow> int \<Rightarrow> (int \<times> int \<times> int) list" where
  "conv_taps I J C = [(i, j, c). i \<leftarrow> [0..I - 1], j \<leftarrow> [0..J - 1], c \<leftarrow> [0..C - 1]]"

definition tap_term :: "'a::times list \<Rightarrow> 'a list \<Rightarrow> int \<Rightarrow> int \<Rightarrow> int \<Rightarrow> int \<Rightarrow> int \<Rightarrow> int \<Rightarrow> int \<Rightarrow> int \<times> int \<times> int \<Rightarrow> 'a" where
  "tap_term input weight W J C K h w k = (\<lambda>(i, j, c).
     input ! nat (((h + i) * W + (w + j)) * C + c) * weight ! nat (((i * J + j) * C + c) * K + k))"

definition conv2d_ref :: "'a::{zero,plus,times} list \<Rightarrow> 'a list \<Rightarrow> int \<Rightarrow> int \<Rightarrow> int \<Rightarrow> int \<Rightarrow> int \<Rightarrow> int \<Rightarrow> int \<Rightarrow> int \<Rightarrow> 'a" where
  "conv2d_ref input weight W I J C K h w k =
     ordered_sum (map (tap_term input weight W J C K h w k) (conv_taps I J C))"

definition tap_reads :: "int \<Rightarrow> int \<Rightarrow> int \<Rightarrow> int \<Rightarrow> int \<Rightarrow> int \<Rightarrow> int \<Rightarrow> int \<times> int \<times> int \<Rightarrow> access list" where
  "tap_reads W J C K h w k = (\<lambda>(i, j, c).
     [ReadInput (((h + i) * W + (w + j)) * C + c), ReadWeight (((i * J + j) * C + c) * K + k)])"

definition window_reads :: "int \<Rightarrow> int \<Rightarrow> int \<Rightarrow> int \<Rightarrow> int \<Rightarrow> int \<Rightarrow> int \<Rightarrow> int \<Rightarrow> access list" where
  "window_reads W I J C K h w k = concat (map (tap_reads W J C K h w k) (conv_taps I J C))"

definition out_points :: "int \<Rightarrow> int \<Rightarrow> int \<Rightarrow> (int \<times> int \<times> int) list" where
  "out_points Ho Wo K = [(h, w, k). h \<leftarrow> [0..Ho - 1], w \<leftarrow> [0..Wo - 1], k \<leftarrow> [0..K - 1]]"

definition flat_idx :: "int \<Rightarrow> int \<Rightarrow> int \<times> int \<times> int \<Rightarrow> int" where
  "flat_idx Wo K = (\<lambda>(h, w, k). (h * Wo + w) * K + k)"


definition point_step :: "'a::{zero,plus,times} list \<Rightarrow> 'a list \<Rightarrow> int \<Rightarrow> int \<Rightarrow> int \<Rightarrow> int \<Rightarrow> int \<Rightarrow> int
    \<Rightarrow> 'a list \<times> access list \<Rightarrow> int \<times> int \<times> int \<Rightarrow> 'a list \<times> access list" where
  "point_step input weight W I J C K Wo = (\<lambda>(out, l) (h, w, k).
     (out[nat (flat_idx Wo K (h, w, k)) := conv2d_ref input weight W I J C K h w k],
      l @ window_reads W I J C K h w k @ [WriteOutput (flat_idx Wo K (h, w, k))]))"


definition triples :: "int \<Rightarrow> int \<Rightarrow> int \<Rightarrow> (int \<times> int \<times> int) list" where
  "triples na nb nc = [(a, b, c). a \<leftarrow> [0..na - 1], b \<leftarrow> [0..nb - 1], c \<leftarrow> [0..nc - 1]]"

definition conv_cell :: "int \<Rightarrow> int \<Rightarrow> int \<Rightarrow> (int \<times> int \<times> int) \<times> (int \<times> int \<times> int) \<Rightarrow> int \<times> int \<times> int" where
  "conv_cell bdx bdy bdz = (\<lambda>((bz, by, bx), (tz, ty, tx)). (by * bdy + ty, bx * bdx + tx, bz * bdz + tz))"

definition conv_thread_step :: "'a::{zero,plus,times} list \<Rightarrow> 'a list \<Rightarrow> int \<Rightarrow> int \<Rightarrow> int \<Rightarrow> int \<Rightarrow> int \<Rightarrow> int \<Rightarrow> int \<Rightarrow> int \<times> int \<times> int \<Rightarrow> 'a list \<Rightarrow> 'a list" where
  "conv_thread_step inp wt W I J C K Ho Wo = (\<lambda>(h, w, k) buf.
     if h < Ho \<and> w < Wo \<and> k < K
     then buf[nat ((h * Wo + w) * K + k) := conv2d_ref inp wt W I J C K h w k] else buf)"

definition conv_threads :: "int \<Rightarrow> int \<Rightarrow> int \<Rightarrow> ((int \<times> int \<times> int) \<times> (int \<times> int \<times> int)) list" where
  "conv_threads gx gy gz = concat (map (\<lambda>b. map (\<lambda>t. (b, t)) (triples 1 16 16)) (triples gz gy gx))"

definition conv_device_result :: "'a::{zero,plus,times} cuda_env \<Rightarrow> 'a list \<Rightarrow> 'a list \<Rightarrow> int \<Rightarrow> int \<Rightarrow> int \<Rightarrow> int \<Rightarrow> int \<Rightarrow> int \<Rightarrow> 'a list" where
  "conv_device_result env inp wt H W I J C K =
     foldl (\<lambda>b x. conv_thread_step inp wt W I J C K (H - I + 1) (W - J + 1) (conv_cell 16 16 1 x) b)
       (map (garbage env) [0..<nat ((H - I + 1) * (W - J + 1) * K)])
       (conv_threads ((W - J + 1 + 16 - 1) div 16) ((H - I + 1 + 16 - 1) div 16) ((K + 1 - 1) div 1))"

definition demo_env :: "int cuda_env" where
  "demo_env = \<lparr>api_status = (\<lambda>_. cudaSuccess), garbage = (\<lambda>_. 0)\<rparr>"


definition demo_state :: "int cuda_state" where
  "demo_state = \<lparr>host = (\<lambda>_. None)(0 := Some [1, 2, 3, 4, 5, 6], 1 := Some [1, 10], 2 := Some [0, 0, 0, 0]),
                 device = (\<lambda>_. None), brk = 3, sticky = False, trace = []\<rparr>"

definition padA :: "'a::zero list \<Rightarrow> int \<Rightarrow> int \<Rightarrow> int \<Rightarrow> int \<Rightarrow> 'a" where
  "padA a M K row k = (if row < M \<and> k < K then a ! nat (row * K + k) else 0)"

definition padB :: "'a::zero list \<Rightarrow> int \<Rightarrow> int \<Rightarrow> int \<Rightarrow> int \<Rightarrow> 'a" where
  "padB b N K k col = (if k < K \<and> col < N then b ! nat (k * N + col) else 0)"

definition gemm_padded :: "'a::{zero,plus,times} list \<Rightarrow> 'a list \<Rightarrow> int \<Rightarrow> int \<Rightarrow> int \<Rightarrow> int \<Rightarrow> int \<Rightarrow> int \<Rightarrow> 'a" where
  "gemm_padded a b M N K n row col =
     ordered_sum (map (\<lambda>k. padA a M K row k * padB b N K k col) [0..n - 1])"


definition cell_key :: "int \<times> int \<times> int \<Rightarrow> int \<times> int" where
  "cell_key = (\<lambda>(tz, ty, tx). (ty, tx))"

definition gemm_cell :: "(int \<times> int \<times> int) \<times> (int \<times> int \<times> int) \<Rightarrow> int \<times> int" where
  "gemm_cell = (\<lambda>((bz, by, bx), (tz, ty, tx)). (by * 16 + ty, bx * 16 + tx))"

definition gemm_thread_step :: "'a::{zero,plus,times} list \<Rightarrow> 'a list \<Rightarrow> int \<Rightarrow> int \<Rightarrow> int \<Rightarrow> int \<times> int \<Rightarrow> 'a list \<Rightarrow> 'a list" where
  "gemm_thread_step a b M N K = (\<lambda>(row, col) buf.
     if row < M \<and> col < N
     then buf[nat (row * N + col) := gemm_padded a b M N K ((K + 16 - 1) div 16 * 16) row col] else buf)"

definition gemm_device_result :: "'a::{zero,plus,times} list \<Rightarrow> 'a list \<Rightarrow> 'a list \<Rightarrow> int \<Rightarrow> int \<Rightarrow> int \<Rightarrow> 'a list" where
  "gemm_device_result a b c0 M N K =
     foldl (\<lambda>buf x. gemm_thread_step a b M N K (gemm_cell x) buf) c0
       (conv_threads ((N + 16 - 1) div 16) ((M + 16 - 1) div 16) 1)"


subsection \<open>Outcomes of a host program\<close>



subsection \<open>The gem5 convolution program (\<open>src/unnamed/part_000\<close>, \<open>main\<close>)\<close>

text \<open>
  \<open>m5_reset_stats\<close> and \<open>m5_dump_stats\<close> are simulator hooks (\<open>gem5/m5ops.h\<close>); they touch the
  simulator's counters and nothing of the program's memory, so they are the identity on the
  state. \<open>conv2d_call\<close> is the call \<open>conv2d(input, weight, output, ...)\<close> on buffers of the host
  heap. \<open>main\<close> allocates the three buffers, fills input with \<open>1.0f\<close> and weight with \<open>0.1f\<close>
  (the parameter \<open>tenth\<close>), calls \<open>conv2d\<close>, frees the buffers in the order input, weight,
  output, and returns 0. The state is the one of the CUDA programs, so that the absence of
  device events can be stated; \<open>main\<close> only uses its host heap.
\<close>

definition m5_reset_stats :: "int \<Rightarrow> int \<Rightarrow> 's \<Rightarrow> 's" where
  "m5_reset_stats delay period s = s"

definition m5_dump_stats :: "int \<Rightarrow> int \<Rightarrow> 's \<Rightarrow> 's" where
  "m5_dump_stats delay period s = s"

definition conv2d_call :: "nat \<Rightarrow> nat \<Rightarrow> nat \<Rightarrow> int \<Rightarrow> int \<Rightarrow> int \<Rightarrow> int \<Rightarrow> int \<Rightarrow> int
    \<Rightarrow> 'a::{zero,plus,times} cuda_state \<Rightarrow> 'a cuda_state result" where
  "conv2d_call input weight output H W I J C K s =
     (case host s input of None \<Rightarrow> Some (Inl OutOfBounds) | Some inp \<Rightarrow>
      case host s weight of None \<Rightarrow> Some (Inl OutOfBounds) | Some wt \<Rightarrow>
      case host s output of None \<Rightarrow> Some (Inl OutOfBounds) | Some out \<Rightarrow>
      seq (conv2d inp wt out H W I J C K) (\<lambda>(out', log).
      Some (Inr (s\<lparr>host := (host s)(output := Some out')\<rparr>))))"

definition conv_main_gem5 :: "'a::{zero,one,plus,times} cuda_env \<Rightarrow> 'a \<Rightarrow> 'a cuda_state \<Rightarrow> (int \<times> 'a cuda_state) result" where
  "conv_main_gem5 env tenth s =
     (let s = m5_reset_stats 0 0 s;
          H = 7; W = 56; I = 3; J = 3; C = 32; K = 8;
          Ho = H - I + 1; Wo = W - J + 1
      in case malloc env (H * W * C) s of (input, s) \<Rightarrow>
         case malloc env (I * J * C * K) s of (weight, s) \<Rightarrow>
         case malloc env (Ho * Wo * K) s of (output, s) \<Rightarrow>
         seq (fill input (H * W * C) 1 s) (\<lambda>s.
         seq (fill weight (I * J * C * K) tenth s) (\<lambda>s.
         seq (conv2d_call input weight output H W I J C K s) (\<lambda>s.
         let s = free output (free weight (free input s));
             s = m5_dump_stats 0 0 s
         in Some (Inr (0, s))))))"

subsection \<open>More concrete inputs\<close>



definition gemm_main_C_after_kernel_test :: "'a::{zero,one,plus,times} cuda_env \<Rightarrow> 'a cuda_state \<Rightarrow> 'a list option" where
  "gemm_main_C_after_kernel_test env s =
     (case gemm_main_init env s of
        Some (Inr (A, B, C, M, N, K, s1)) \<Rightarrow>
          (case gemm_kernel_test env A B C M N K s1 of Some (Inr s2) \<Rightarrow> host s2 C | _ \<Rightarrow> None)
      | _ \<Rightarrow> None)"

section \<open>Proofs\<close>

lemma for_loop_step:
  "x < n \<Longrightarrow> for_loop x n body s = seq (body x s) (for_loop (x + 1) n body)"
  by (subst for_loop.simps) (simp add: seq_def)

lemma for_loop_done:
  "\<not> x < n \<Longrightarrow> for_loop x n body s = Some (Inr s)"
  by (subst for_loop.simps) simp

lemma for_loop_closed:
  assumes "x \<le> n"
    and "\<And>y. x \<le> y \<Longrightarrow> y < n \<Longrightarrow> body y (g y) = Some (Inr (g (y + 1)))"
  shows "for_loop x n body (g x) = Some (Inr (g n))"
  using assms
proof (induction "nat (n - x)" arbitrary: x)
  case 0
  then have "x = n" by simp
  then show ?case by (simp add: for_loop_done)
next
  case (Suc m)
  then have lt: "x < n" by linarith
  have "for_loop (x + 1) n body (g (x + 1)) = Some (Inr (g n))"
    using Suc.hyps(2) Suc.prems lt by (intro Suc.hyps(1)) auto
  then show ?case
    using Suc.prems(2)[of x] lt by (simp add: for_loop_step seq_def)
qed

lemma for_loop_total:
  assumes "\<And>y t. body y t \<noteq> None"
  shows "for_loop x n body s \<noteq> None"
proof (induction "nat (n - x)" arbitrary: x s)
  case 0
  then show ?case by (simp add: for_loop_done)
next
  case (Suc m)
  then have lt: "x < n" by linarith
  show ?case
  proof (cases "body x s")
    case None
    with assms [of x s] show ?thesis by simp
  next
    case (Some r)
    show ?thesis
    proof (cases r)
      case (Inl e)
      with Some lt show ?thesis by (simp add: for_loop_step seq_def)
    next
      case (Inr t)
      have "for_loop (x + 1) n body t \<noteq> None"
        using Suc.hyps(2) lt by (intro Suc.hyps(1)) auto
      with Some Inr lt show ?thesis by (simp add: for_loop_step seq_def)
    qed
  qed
qed

lemma for_loop_accum:
  assumes "P s"
    and "\<And>y t. x \<le> y \<Longrightarrow> y < n \<Longrightarrow> P t \<Longrightarrow> body y t = Some (Inr (step t y)) \<and> P (step t y)"
  shows "for_loop x n body s = Some (Inr (foldl step s [x..n - 1])) \<and> P (foldl step s [x..n - 1])"
  using assms
proof (induction "nat (n - x)" arbitrary: x s)
  case 0
  then have "\<not> x < n" by simp
  then show ?case using 0 by (simp add: for_loop_done)
next
  case (Suc m)
  then have lt: "x < n" by linarith
  have b: "body x s = Some (Inr (step s x))" and p: "P (step s x)"
    using Suc.prems(2)[of x s] Suc.prems(1) lt by auto
  have ih: "for_loop (x + 1) n body (step s x) = Some (Inr (foldl step (step s x) [x + 1..n - 1]))
      \<and> P (foldl step (step s x) [x + 1..n - 1])"
    using Suc.hyps(2) lt p Suc.prems(2) by (intro Suc.hyps(1)) auto
  have u: "[x..n - 1] = x # [x + 1..n - 1]"
    using lt by (simp add: upto_rec1)
  show ?case
    using ih b lt by (simp add: for_loop_step seq_def u)
qed

lemma foldl_nest:
  "foldl (\<lambda>s x. foldl f s (g x)) s xs = foldl f s (concat (map g xs))"
  by (induction xs arbitrary: s) auto

lemma foldl_pair:
  "foldl (\<lambda>(a, l) t. (a + v t, l @ e t)) (a0, l0) ts = (foldl (+) a0 (map v ts), l0 @ concat (map e ts))"
  by (induction ts arbitrary: a0 l0) auto

lemma idx2_bound:
  fixes x y n m :: int
  assumes "0 \<le> x" "x < n" "0 \<le> y" "y < m"
  shows "0 \<le> x * m + y \<and> x * m + y < n * m"
proof -
  have "x * m + y < (x + 1) * m" using assms by (simp add: algebra_simps)
  also have "(x + 1) * m \<le> n * m" using assms by (intro mult_right_mono) auto
  finally show ?thesis using assms by simp
qed


lemma in_idx_bound:
  fixes H W C h w i j c :: int
  assumes "0 \<le> h + i" "h + i < H" "0 \<le> w + j" "w + j < W" "0 \<le> c" "c < C"
  shows "0 \<le> ((h + i) * W + (w + j)) * C + c \<and> ((h + i) * W + (w + j)) * C + c < H * W * C"
proof -
  have a: "0 \<le> (h + i) * W + (w + j) \<and> (h + i) * W + (w + j) < H * W"
    using assms by (intro idx2_bound) auto
  show ?thesis using a assms by (intro idx2_bound) auto
qed

lemma wt_idx_bound:
  fixes I J C K i j c k :: int
  assumes "0 \<le> i" "i < I" "0 \<le> j" "j < J" "0 \<le> c" "c < C" "0 \<le> k" "k < K"
  shows "0 \<le> ((i * J + j) * C + c) * K + k \<and> ((i * J + j) * C + c) * K + k < I * J * C * K"
proof -
  have a: "0 \<le> i * J + j \<and> i * J + j < I * J"
    using assms by (intro idx2_bound) auto
  have b: "0 \<le> (i * J + j) * C + c \<and> (i * J + j) * C + c < I * J * C"
    using a assms by (intro idx2_bound) auto
  show ?thesis using b assms by (intro idx2_bound) auto
qed

lemma conv2d_mac_ok:
  assumes "0 \<le> h" "h + I \<le> H" "0 \<le> w" "w + J \<le> W" "0 \<le> k" "k < K"
    and "int (length input) = H * W * C" "int (length weight) = I * J * C * K"
    and "0 \<le> i" "i < I" "0 \<le> j" "j < J" "0 \<le> c" "c < C"
  shows "conv2d_mac input weight W J C K h w k i j c (a, l) =
     Some (Inr (a + tap_term input weight W J C K h w k (i, j, c),
                l @ tap_reads W J C K h w k (i, j, c)))"
proof -
  have a': "0 \<le> ((h + i) * W + (w + j)) * C + c \<and> ((h + i) * W + (w + j)) * C + c < H * W * C"
    using assms by (intro in_idx_bound) auto
  have b: "0 \<le> ((i * J + j) * C + c) * K + k \<and> ((i * J + j) * C + c) * K + k < I * J * C * K"
    using assms by (intro wt_idx_bound) auto
  show ?thesis
    using a' b assms(7,8)
    by (simp add: conv2d_mac_def load_def seq_def tap_term_def tap_reads_def Let_def)
qed

lemma conv2d_window_closed:
  fixes input weight :: "'a::{zero,plus,times} list"
  assumes "0 \<le> h" "h + I \<le> H" "0 \<le> w" "w + J \<le> W" "0 \<le> k" "k < K"
    and "int (length input) = H * W * C" "int (length weight) = I * J * C * K"
  shows "conv2d_window input weight W I J C K h w k l =
     Some (Inr (conv2d_ref input weight W I J C K h w k, l @ window_reads W I J C K h w k))"
proof -
  define F :: "'a \<times> access list \<Rightarrow> int \<times> int \<times> int \<Rightarrow> 'a \<times> access list"
    where "F = (\<lambda>(a, l) t. (a + tap_term input weight W J C K h w k t, l @ tap_reads W J C K h w k t))"
  have mac: "conv2d_mac input weight W J C K h w k i j c st = Some (Inr (F st (i, j, c)))"
    if "0 \<le> i" "i < I" "0 \<le> j" "j < J" "0 \<le> c" "c < C" for i j c st
    using conv2d_mac_ok[OF assms that, of "fst st" "snd st"] by (simp add: F_def split_beta)
  have cl: "for_loop 0 C (\<lambda>c. conv2d_mac input weight W J C K h w k i j c) st
      = Some (Inr (foldl F st (map (\<lambda>c. (i, j, c)) [0..C - 1])))"
    if "0 \<le> i" "i < I" "0 \<le> j" "j < J" for i j st
    using for_loop_accum[where P = "\<lambda>_. True" and step = "\<lambda>t c. F t (i, j, c)"
        and body = "\<lambda>c. conv2d_mac input weight W J C K h w k i j c" and x = 0 and n = C and s = st]
      mac that by (simp add: foldl_map)
  have jl: "for_loop 0 J (\<lambda>j. for_loop 0 C (\<lambda>c. conv2d_mac input weight W J C K h w k i j c)) st
      = Some (Inr (foldl F st (concat (map (\<lambda>j. map (\<lambda>c. (i, j, c)) [0..C - 1]) [0..J - 1]))))"
    if "0 \<le> i" "i < I" for i st
    using for_loop_accum[where P = "\<lambda>_. True"
        and step = "\<lambda>t j. foldl F t (map (\<lambda>c. (i, j, c)) [0..C - 1])"
        and body = "\<lambda>j. for_loop 0 C (\<lambda>c. conv2d_mac input weight W J C K h w k i j c)"
        and x = 0 and n = J and s = st]
      cl that by (simp add: foldl_nest)
  have il: "for_loop 0 I (\<lambda>i. for_loop 0 J (\<lambda>j. for_loop 0 C (\<lambda>c. conv2d_mac input weight W J C K h w k i j c))) st
      = Some (Inr (foldl F st (conv_taps I J C)))" for st
    using for_loop_accum[where P = "\<lambda>_. True"
        and step = "\<lambda>t i. foldl F t (concat (map (\<lambda>j. map (\<lambda>c. (i, j, c)) [0..C - 1]) [0..J - 1]))"
        and body = "\<lambda>i. for_loop 0 J (\<lambda>j. for_loop 0 C (\<lambda>c. conv2d_mac input weight W J C K h w k i j c))"
        and x = 0 and n = I and s = st]
      jl by (simp add: foldl_nest conv_taps_def)
  show ?thesis
    unfolding conv2d_window_def il
    by (simp add: F_def foldl_pair conv2d_ref_def ordered_sum_def window_reads_def)
qed

lemma upto_shift: "[b..b + m - 1] = map (\<lambda>y. b + y) [0..m - 1]"
proof (induction "nat m" arbitrary: m)
  case 0
  then show ?case by simp
next
  case (Suc n)
  then have m: "0 < m" by linarith
  have ih: "[b..b + (m - 1) - 1] = map (\<lambda>y. b + y) [0..(m - 1) - 1]"
    using Suc.hyps(2) by (intro Suc.hyps(1)) auto
  have a: "[b..b + m - 1] = [b..b + (m - 1) - 1] @ [b + m - 1]"
    using m upto_rec2[of b "b + m - 1"] by (simp add: algebra_simps)
  have c: "[0..m - 1] = [0..(m - 1) - 1] @ [m - 1]"
    using m upto_rec2[of 0 "m - 1"] by simp
  show ?case unfolding a c using ih by (simp add: algebra_simps)
qed

lemma upto_append:
  assumes "0 \<le> a" "0 \<le> b"
  shows "[0..a + b - 1] = [0..a - 1] @ [a..a + b - 1]"
proof (cases "a = 0")
  case True
  then show ?thesis by simp
next
  case False
  then show ?thesis
    using assms upto_split2[of 0 "a - 1" "a + b - 1"] by simp
qed

lemma concat_map_concat:
  "concat (map F (concat xss)) = concat (map (\<lambda>xs. concat (map F xs)) xss)"
  by (induction xss) auto

lemma concat_blocks:
  assumes "0 \<le> m" "0 \<le> n"
  shows "concat (map (\<lambda>x. concat (map (\<lambda>y. G (x * m + y)) [0..m - 1])) [0..n - 1])
     = concat (map G [0..n * m - 1])"
  using assms(2)
proof (induction n rule: int_ge_induct)
  case base
  then show ?case by simp
next
  case (step n)
  have a: "[0..n + 1 - 1] = [0..n - 1] @ [n]"
    using step.hyps upto_rec2[of 0 n] by simp
  have "0 \<le> n * m" using step.hyps assms(1) by simp
  then have "[0..n * m + m - 1] = [0..n * m - 1] @ [n * m..n * m + m - 1]"
    using assms(1) by (intro upto_append) auto
  then have b: "[0..(n + 1) * m - 1] = [0..n * m - 1] @ [n * m..n * m + m - 1]"
    by (simp add: algebra_simps)
  have c: "[n * m..n * m + m - 1] = map (\<lambda>y. n * m + y) [0..m - 1]"
    by (rule upto_shift)
  show ?case
    unfolding a b c using step.IH by (simp add: o_def)
qed

lemma map_blocks:
  assumes "0 \<le> m" "0 \<le> n"
  shows "concat (map (\<lambda>x. map (\<lambda>y. f (x * m + y)) [0..m - 1]) [0..n - 1]) = map f [0..n * m - 1]"
proof -
  have "concat (map (\<lambda>x. concat (map (\<lambda>y. [f (x * m + y)]) [0..m - 1])) [0..n - 1])
      = concat (map (\<lambda>p. [f p]) [0..n * m - 1])"
    using assms by (rule concat_blocks)
  moreover have "concat (map (\<lambda>y. [g y]) ys) = map g ys" for g :: "int \<Rightarrow> 'a" and ys
    by (induction ys) auto
  ultimately show ?thesis by simp
qed

lemma out_points_flat:
  assumes "0 \<le> Ho" "0 \<le> Wo" "0 \<le> K"
  shows "concat (map (\<lambda>p. G (flat_idx Wo K p)) (out_points Ho Wo K)) = concat (map G [0..Ho * Wo * K - 1])"
proof -
  have "concat (map (\<lambda>p. G (flat_idx Wo K p)) (out_points Ho Wo K))
     = concat (map (\<lambda>h. concat (map (\<lambda>w. concat (map (\<lambda>k. G ((h * Wo + w) * K + k)) [0..K - 1])) [0..Wo - 1])) [0..Ho - 1])"
    by (simp add: out_points_def flat_idx_def concat_map_concat o_def)
  also have "\<dots> = concat (map (\<lambda>b. concat (map (\<lambda>k. G (b * K + k)) [0..K - 1])) [0..Ho * Wo - 1])"
    using concat_blocks[OF assms(2) assms(1), of "\<lambda>b. concat (map (\<lambda>k. G (b * K + k)) [0..K - 1])"] .
  also have "\<dots> = concat (map G [0..Ho * Wo * K - 1])"
    using concat_blocks[OF assms(3), of "Ho * Wo" G] assms by simp
  finally show ?thesis .
qed

lemma out_points_idx:
  assumes "0 \<le> Ho" "0 \<le> Wo" "0 \<le> K"
  shows "map (flat_idx Wo K) (out_points Ho Wo K) = [0..Ho * Wo * K - 1]"
proof -
  have s: "concat (map (\<lambda>y. [g y]) ys) = map g ys" for g :: "'b \<Rightarrow> int" and ys
    by (induction ys) auto
  have "concat (map (\<lambda>p. [flat_idx Wo K p]) (out_points Ho Wo K)) = concat (map (\<lambda>p. [p]) [0..Ho * Wo * K - 1])"
    using out_points_flat[OF assms, of "\<lambda>p. [p]"] .
  then show ?thesis by (simp add: s)
qed

lemma foldl_update_length:
  "length (foldl (\<lambda>xs t. xs[f t := g t]) xs ts) = length xs"
  by (induction ts arbitrary: xs) auto

lemma foldl_update_other:
  "i \<notin> f ` set ts \<Longrightarrow> foldl (\<lambda>xs t. xs[f t := g t]) xs ts ! i = xs ! i"
  by (induction ts arbitrary: xs) auto

lemma foldl_update_nth:
  assumes "distinct (map f ts)" "t \<in> set ts" "f t < length xs"
  shows "foldl (\<lambda>xs t. xs[f t := g t]) xs ts ! f t = g t"
  using assms
proof (induction ts arbitrary: xs)
  case Nil
  then show ?case by simp
next
  case (Cons u us)
  show ?case
  proof (cases "t = u")
    case True
    then have "f t \<notin> f ` set us" using Cons.prems(1) by auto
    then show ?thesis using True Cons.prems(3) by (simp add: foldl_update_other)
  next
    case False
    then show ?thesis using Cons by auto
  qed
qed

lemma foldl_point_step:
  "foldl (point_step input weight W I J C K Wo) (out, l) ps =
    (foldl (\<lambda>xs p. xs[nat (flat_idx Wo K p) := (\<lambda>(h, w, k). conv2d_ref input weight W I J C K h w k) p]) out ps,
     l @ concat (map (\<lambda>p. (\<lambda>(h, w, k). window_reads W I J C K h w k) p @ [WriteOutput (flat_idx Wo K p)]) ps))"
  by (induction ps arbitrary: out l) (auto simp: point_step_def)

lemma length_foldl_point_step:
  "length (fst (foldl (point_step input weight W I J C K Wo) st ps)) = length (fst st)"
  by (cases st) (simp add: foldl_point_step foldl_update_length)

lemma conv2d_closed:
  fixes input weight :: "'a::{zero,plus,times} list" and "output" :: "'a list"
  assumes "I \<le> H" "J \<le> W" "0 \<le> I" "0 \<le> J"
    and "int (length input) = H * W * C" "int (length weight) = I * J * C * K"
    and "int (length output) = (H - I + 1) * (W - J + 1) * K"
  shows "conv2d input weight output H W I J C K =
     Some (Inr (foldl (point_step input weight W I J C K (W - J + 1)) (output, [])
                  (out_points (H - I + 1) (W - J + 1) K)))"
proof -
  define Ho where "Ho = H - I + 1"
  define Wo where "Wo = W - J + 1"
  define S where "S = point_step input weight W I J C K Wo"
  define P :: "'a list \<times> access list \<Rightarrow> bool" where "P = (\<lambda>st. length (fst st) = length output)"
  have PS: "P (foldl S st ps)" if "P st" for st ps
    using that by (simp add: P_def S_def length_foldl_point_step)
  have body: "(case st of (output, log) \<Rightarrow>
            seq (conv2d_window input weight W I J C K h w k log) (\<lambda>(sum, log).
              let out_idx = (h * Wo + w) * K + k in
              seq (store output out_idx sum) (\<lambda>output.
              Some (Inr (output, log @ [WriteOutput out_idx])))))
        = Some (Inr (S st (h, w, k)))"
    if "0 \<le> h" "h < Ho" "0 \<le> w" "w < Wo" "0 \<le> k" "k < K" "P st" for h w k st
  proof -
    obtain out l where st: "st = (out, l)" by (cases st)
    have win: "conv2d_window input weight W I J C K h w k l =
        Some (Inr (conv2d_ref input weight W I J C K h w k, l @ window_reads W I J C K h w k))"
      using that assms by (intro conv2d_window_closed[where H = H]) (auto simp: Ho_def Wo_def)
    have a: "0 \<le> h * Wo + w \<and> h * Wo + w < Ho * Wo"
      using that by (intro idx2_bound) auto
    have b: "0 \<le> (h * Wo + w) * K + k \<and> (h * Wo + w) * K + k < Ho * Wo * K"
      using a that by (intro idx2_bound) auto
    have "int (length out) = Ho * Wo * K"
      using that(7) assms(7) by (simp add: P_def st Ho_def Wo_def)
    then show ?thesis
      using b by (simp add: st win seq_def store_def S_def point_step_def flat_idx_def Let_def)
  qed
  have kl: "for_loop 0 K (\<lambda>k (output, log).
            seq (conv2d_window input weight W I J C K h w k log) (\<lambda>(sum, log).
              let out_idx = (h * Wo + w) * K + k in
              seq (store output out_idx sum) (\<lambda>output.
              Some (Inr (output, log @ [WriteOutput out_idx]))))) st
        = Some (Inr (foldl S st (map (\<lambda>k. (h, w, k)) [0..K - 1])))"
    if "0 \<le> h" "h < Ho" "0 \<le> w" "w < Wo" "P st" for h w st
    using for_loop_accum[where P = P and step = "\<lambda>t k. S t (h, w, k)" and x = 0 and n = K and s = st
        and body = "\<lambda>k (output, log).
            seq (conv2d_window input weight W I J C K h w k log) (\<lambda>(sum, log).
              let out_idx = (h * Wo + w) * K + k in
              seq (store output out_idx sum) (\<lambda>output.
              Some (Inr (output, log @ [WriteOutput out_idx]))))"]
      body that PS[of _ "[_]"] by (simp add: foldl_map)
  have wl: "for_loop 0 Wo (\<lambda>w. for_loop 0 K (\<lambda>k (output, log).
            seq (conv2d_window input weight W I J C K h w k log) (\<lambda>(sum, log).
              let out_idx = (h * Wo + w) * K + k in
              seq (store output out_idx sum) (\<lambda>output.
              Some (Inr (output, log @ [WriteOutput out_idx])))))) st
        = Some (Inr (foldl S st (concat (map (\<lambda>w. map (\<lambda>k. (h, w, k)) [0..K - 1]) [0..Wo - 1]))))"
    if "0 \<le> h" "h < Ho" "P st" for h st
    using for_loop_accum[where P = P and step = "\<lambda>t w. foldl S t (map (\<lambda>k. (h, w, k)) [0..K - 1])"
        and x = 0 and n = Wo and s = st
        and body = "\<lambda>w. for_loop 0 K (\<lambda>k (output, log).
            seq (conv2d_window input weight W I J C K h w k log) (\<lambda>(sum, log).
              let out_idx = (h * Wo + w) * K + k in
              seq (store output out_idx sum) (\<lambda>output.
              Some (Inr (output, log @ [WriteOutput out_idx])))))"]
      kl that PS by (simp add: foldl_nest)
  have hl: "for_loop 0 Ho (\<lambda>h. for_loop 0 Wo (\<lambda>w. for_loop 0 K (\<lambda>k (output, log).
            seq (conv2d_window input weight W I J C K h w k log) (\<lambda>(sum, log).
              let out_idx = (h * Wo + w) * K + k in
              seq (store output out_idx sum) (\<lambda>output.
              Some (Inr (output, log @ [WriteOutput out_idx]))))))) st
        = Some (Inr (foldl S st (out_points Ho Wo K)))"
    if "P st" for st
    using for_loop_accum[where P = P
        and step = "\<lambda>t h. foldl S t (concat (map (\<lambda>w. map (\<lambda>k. (h, w, k)) [0..K - 1]) [0..Wo - 1]))"
        and x = 0 and n = Ho and s = st
        and body = "\<lambda>h. for_loop 0 Wo (\<lambda>w. for_loop 0 K (\<lambda>k (output, log).
            seq (conv2d_window input weight W I J C K h w k log) (\<lambda>(sum, log).
              let out_idx = (h * Wo + w) * K + k in
              seq (store output out_idx sum) (\<lambda>output.
              Some (Inr (output, log @ [WriteOutput out_idx]))))))"]
      wl that PS by (simp add: foldl_nest out_points_def)
  have "P (output, [])" by (simp add: P_def)
  from hl[OF this] show ?thesis
    by (simp add: conv2d_def Let_def Ho_def Wo_def S_def)
qed

lemma set_out_points:
  "(h, w, k) \<in> set (out_points Ho Wo K) \<longleftrightarrow> 0 \<le> h \<and> h < Ho \<and> 0 \<le> w \<and> w < Wo \<and> 0 \<le> k \<and> k < K"
  by (force simp: out_points_def)






lemma ordered_sum_monoid: "ordered_sum (xs :: 'a::monoid_add list) = sum_list xs"
proof -
  have "foldl (+) a xs = a + sum_list xs" for a :: 'a
    by (induction xs arbitrary: a) (auto simp: add.assoc)
  from this[of 0] show ?thesis by (simp add: ordered_sum_def)
qed

lemma conv2d_mac_total: "conv2d_mac input weight W J C K h w k i j c st \<noteq> None"
  by (cases st) (simp add: conv2d_mac_def load_def seq_def Let_def)

lemma conv2d_window_total: "conv2d_window input weight W I J C K h w k l \<noteq> None"
  unfolding conv2d_window_def
  by (intro for_loop_total conv2d_mac_total)

lemma conv2d_run:
  fixes input weight :: "'a::{zero,plus,times} list" and "output" :: "'a list"
  assumes "1 \<le> I" "I \<le> H" "1 \<le> J" "J \<le> W" "1 \<le> C" "1 \<le> K"
    and "int (length input) = H * W * C"
    and "int (length weight) = I * J * C * K"
    and "int (length output) = (H - I + 1) * (W - J + 1) * K"
  shows "\<exists>out l. conv2d input weight output H W I J C K = Some (Inr (out, l)) \<and>
     length out = length output \<and>
     (\<forall>h w k. 0 \<le> h \<and> h < H - I + 1 \<and> 0 \<le> w \<and> w < W - J + 1 \<and> 0 \<le> k \<and> k < K \<longrightarrow>
        out ! nat ((h * (W - J + 1) + w) * K + k) = conv2d_ref input weight W I J C K h w k)"
proof -
  define Ho where "Ho = H - I + 1"
  define Wo where "Wo = W - J + 1"
  define ps where "ps = out_points Ho Wo K"
  define f where "f = (\<lambda>p. nat (flat_idx Wo K p))"
  define g where "g = (\<lambda>(h, w, k). conv2d_ref input weight W I J C K h w k)"
  define out where "out = foldl (\<lambda>xs p. xs[f p := g p]) output ps"
  have nn: "0 \<le> Ho" "0 \<le> Wo" "0 \<le> K" using assms by (auto simp: Ho_def Wo_def)
  have run: "conv2d input weight output H W I J C K
      = Some (Inr (foldl (point_step input weight W I J C K Wo) (output, []) ps))"
    unfolding ps_def Ho_def Wo_def using assms by (intro conv2d_closed) auto
  have fst: "fst (foldl (point_step input weight W I J C K Wo) (output, []) ps) = out"
    by (simp add: foldl_point_step out_def f_def g_def)
  have len: "length out = length output"
    by (simp add: out_def foldl_update_length)
  have "map f ps = map nat (map (flat_idx Wo K) ps)" by (simp add: f_def)
  also have "\<dots> = map nat [0..Ho * Wo * K - 1]"
    unfolding ps_def using out_points_idx[OF nn] by simp
  finally have "distinct (map f ps)"
    by (auto simp: distinct_map inj_on_def)
  have val: "out ! nat ((h * Wo + w) * K + k) = conv2d_ref input weight W I J C K h w k"
    if "0 \<le> h" "h < Ho" "0 \<le> w" "w < Wo" "0 \<le> k" "k < K" for h w k
  proof -
    have mem: "(h, w, k) \<in> set ps" using that by (simp add: ps_def set_out_points)
    have a: "0 \<le> h * Wo + w \<and> h * Wo + w < Ho * Wo"
      using that by (intro idx2_bound) auto
    have b: "0 \<le> (h * Wo + w) * K + k \<and> (h * Wo + w) * K + k < Ho * Wo * K"
      using a that by (intro idx2_bound) auto
    then have "f (h, w, k) < length output"
      using assms(9) by (simp add: f_def flat_idx_def Ho_def Wo_def nat_less_iff)
    from foldl_update_nth[OF \<open>distinct (map f ps)\<close> mem this, of g]
    show ?thesis by (simp add: out_def f_def g_def flat_idx_def)
  qed
  show ?thesis
    using run fst len val
    by (intro exI[of _ out] exI[of _ "snd (foldl (point_step input weight W I J C K Wo) (output, []) ps)"])
       (auto simp: Ho_def Wo_def simp flip: fst)
qed






text \<open>
  Claim C10. The sequential \<open>conv2d\<close> terminates for every choice of the integer parameters
  (and of the buffers): the loop bounds are fixed on entry and the loop variables increase,
  so the computation always returns, with a result or with an out-of-bounds fault.
\<close>

theorem conv2d_terminates:
  "\<exists>r. conv2d input weight output H W I J C K = Some r"
proof -
  have body: "(case st of (output, log) \<Rightarrow>
            seq (conv2d_window input weight W I J C K h w k log) (\<lambda>(sum, log).
              seq (store output ((h * Wo + w) * K + k) sum) (\<lambda>output.
              Some (Inr (output, log @ [WriteOutput ((h * Wo + w) * K + k)]))))) \<noteq> None"
    for h w k Wo and st :: "'a list \<times> access list"
    using conv2d_window_total[of input weight W I J C K h w k "snd st"]
    by (cases st) (auto simp: seq_def store_def Let_def split: option.splits sum.splits)
  have "conv2d input weight output H W I J C K \<noteq> None"
    unfolding conv2d_def Let_def
    by (intro for_loop_total body)
  then show ?thesis by auto
qed


lemma set_triples:
  "(a, b, c) \<in> set (triples na nb nc) \<longleftrightarrow> 0 \<le> a \<and> a < na \<and> 0 \<le> b \<and> b < nb \<and> 0 \<le> c \<and> c < nc"
  by (force simp: triples_def)

lemma for_loop3_accum:
  assumes "P s"
    and "\<And>a b c t. 0 \<le> a \<Longrightarrow> a < na \<Longrightarrow> 0 \<le> b \<Longrightarrow> b < nb \<Longrightarrow> 0 \<le> c \<Longrightarrow> c < nc \<Longrightarrow> P t \<Longrightarrow>
           body a b c t = Some (Inr (step t (a, b, c))) \<and> P (step t (a, b, c))"
  shows "for_loop 0 na (\<lambda>a. for_loop 0 nb (\<lambda>b. for_loop 0 nc (\<lambda>c. body a b c))) s
           = Some (Inr (foldl step s (triples na nb nc)))
         \<and> P (foldl step s (triples na nb nc))"
proof -
  have l1: "for_loop 0 nc (\<lambda>c. body a b c) t = Some (Inr (foldl step t (map (\<lambda>c. (a, b, c)) [0..nc - 1])))
      \<and> P (foldl step t (map (\<lambda>c. (a, b, c)) [0..nc - 1]))"
    if "0 \<le> a" "a < na" "0 \<le> b" "b < nb" "P t" for a b t
    using for_loop_accum[where P = P and step = "\<lambda>t c. step t (a, b, c)" and x = 0 and n = nc and s = t
        and body = "\<lambda>c. body a b c"] assms(2) that
    by (simp add: foldl_map)
  have l2: "for_loop 0 nb (\<lambda>b. for_loop 0 nc (\<lambda>c. body a b c)) t
        = Some (Inr (foldl step t (concat (map (\<lambda>b. map (\<lambda>c. (a, b, c)) [0..nc - 1]) [0..nb - 1]))))
      \<and> P (foldl step t (concat (map (\<lambda>b. map (\<lambda>c. (a, b, c)) [0..nc - 1]) [0..nb - 1])))"
    if "0 \<le> a" "a < na" "P t" for a t
    using for_loop_accum[where P = P and step = "\<lambda>t b. foldl step t (map (\<lambda>c. (a, b, c)) [0..nc - 1])"
        and x = 0 and n = nb and s = t and body = "\<lambda>b. for_loop 0 nc (\<lambda>c. body a b c)"] l1 that
    by (simp add: foldl_nest)
  show ?thesis
    using for_loop_accum[where P = P
        and step = "\<lambda>t a. foldl step t (concat (map (\<lambda>b. map (\<lambda>c. (a, b, c)) [0..nc - 1]) [0..nb - 1]))"
        and x = 0 and n = na and s = s and body = "\<lambda>a. for_loop 0 nb (\<lambda>b. for_loop 0 nc (\<lambda>c. body a b c))"]
      l2 assms(1)
    by (simp add: foldl_nest triples_def)
qed

lemma foldl_cond_update_length:
  "length (foldl (\<lambda>xs t. if c t then xs[f t := g t] else xs) xs ts) = length xs"
  by (induction ts arbitrary: xs) auto

lemma foldl_cond_update_nth:
  assumes "\<And>t. t \<in> set ts \<Longrightarrow> c t \<Longrightarrow> f t = p \<Longrightarrow> g t = v"
    and "\<exists>t \<in> set ts. c t \<and> f t = p"
    and "p < length xs"
  shows "foldl (\<lambda>xs t. if c t then xs[f t := g t] else xs) xs ts ! p = v"
  using assms
proof (induction ts arbitrary: xs rule: rev_induct)
  case Nil
  then show ?case by simp
next
  case (snoc u us)
  show ?case
  proof (cases "c u \<and> f u = p")
    case True
    then have "g u = v" using snoc.prems(1)[of u] by simp
    then show ?thesis using True snoc.prems(3) by (simp add: foldl_cond_update_length)
  next
    case False
    then have ex: "\<exists>t \<in> set us. c t \<and> f t = p" using snoc.prems(2) by auto
    have "foldl (\<lambda>xs t. if c t then xs[f t := g t] else xs) xs us ! p = v"
      using snoc.prems(1,3) ex by (intro snoc.IH) auto
    then show ?thesis using False by auto
  qed
qed

lemma foldl_cond_update_untouched:
  assumes "\<And>t. t \<in> set ts \<Longrightarrow> c t \<Longrightarrow> f t \<noteq> p"
  shows "foldl (\<lambda>xs t. if c t then xs[f t := g t] else xs) xs ts ! p = xs ! p"
  using assms by (induction ts arbitrary: xs) auto

lemma divmod_unique:
  fixes x y m :: int
  assumes "0 \<le> y" "y < m"
  shows "(x * m + y) div m = x" "(x * m + y) mod m = y"
  using assms by (simp_all add: div_pos_pos_trivial)

lemma idx2_inj:
  fixes x y x' y' m :: int
  assumes "0 \<le> y" "y < m" "0 \<le> y'" "y' < m" "x * m + y = x' * m + y'"
  shows "x = x' \<and> y = y'"
  using divmod_unique[OF assms(1,2), of x] divmod_unique[OF assms(3,4), of x'] assms(5) by simp

lemma sdiv_nonneg:
  fixes a b :: int
  assumes "0 \<le> a" "0 < b"
  shows "a sdiv b = a div b"
  using assms by (simp add: signed_divide_int_def sgn_if)

lemma conv_taps_triples: "conv_taps I J C = triples I J C"
  by (simp add: conv_taps_def triples_def)

lemma out_points_triples: "out_points Ho Wo K = triples Ho Wo K"
  by (simp add: out_points_def triples_def)

lemma each_thread_accum:
  assumes "P s"
    and "\<And>tx ty tz t. 0 \<le> tx \<Longrightarrow> tx < bdx \<Longrightarrow> 0 \<le> ty \<Longrightarrow> ty < bdy \<Longrightarrow> 0 \<le> tz \<Longrightarrow> tz < bdz \<Longrightarrow> P t \<Longrightarrow>
           thread (tx, ty, tz) t = Some (Inr (step t (tz, ty, tx))) \<and> P (step t (tz, ty, tx))"
  shows "each_thread (bdx, bdy, bdz) thread s = Some (Inr (foldl step s (triples bdz bdy bdx)))
         \<and> P (foldl step s (triples bdz bdy bdx))"
  unfolding each_thread_def prod.case
  using assms by (intro for_loop3_accum) auto

lemma conv2d_kernel_thread:
  fixes inp wt buf :: "'a::{zero,plus,times} list"
  assumes mem: "mem input = Some inp" "mem weight = Some wt" "mem out = Some buf"
    and len: "int (length inp) = H * W * C" "int (length wt) = I * J * C * K"
      "int (length buf) = (H - I + 1) * (W - J + 1) * K"
    and par: "0 \<le> I" "0 \<le> J"
    and idx: "0 \<le> bx" "0 \<le> by" "0 \<le> bz" "0 \<le> tx" "0 \<le> ty" "0 \<le> tz" "0 \<le> bdx" "0 \<le> bdy" "0 \<le> bdz"
  shows "conv2d_kernel input weight out H W I J C K (bx, by, bz) (bdx, bdy, bdz) (tx, ty, tz) mem =
     Some (Inr (mem(out := Some (conv_thread_step inp wt W I J C K (H - I + 1) (W - J + 1)
        (by * bdy + ty, bx * bdx + tx, bz * bdz + tz) buf))))"
proof -
  define h where "h = by * bdy + ty"
  define w where "w = bx * bdx + tx"
  define k where "k = bz * bdz + tz"
  define Ho where "Ho = H - I + 1"
  define Wo where "Wo = W - J + 1"
  have nn: "0 \<le> h" "0 \<le> w" "0 \<le> k" using idx by (auto simp: h_def w_def k_def)
  show ?thesis
  proof (cases "h < Ho \<and> w < Wo \<and> k < K")
    case False
    then show ?thesis
      using mem(3)
      by (auto simp: conv2d_kernel_def conv_thread_step_def Let_def h_def w_def k_def Ho_def Wo_def fun_upd_idem)
  next
    case True
    have body: "(let in_idx = ((h + i) * W + (w + j)) * C + c;
                     wt_idx = ((i * J + j) * C + c) * K + k
                 in seq (dload mem input in_idx) (\<lambda>a.
                    seq (dload mem weight wt_idx) (\<lambda>b.
                    Some (Inr (acc + a * b)))))
        = Some (Inr (acc + tap_term inp wt W J C K h w k (i, j, c)))"
      if "0 \<le> i" "i < I" "0 \<le> j" "j < J" "0 \<le> c" "c < C" for i j c and acc :: 'a
    proof -
      have a: "0 \<le> ((h + i) * W + (w + j)) * C + c \<and> ((h + i) * W + (w + j)) * C + c < H * W * C"
        using that nn True by (intro in_idx_bound) (auto simp: Ho_def Wo_def)
      have b: "0 \<le> ((i * J + j) * C + c) * K + k \<and> ((i * J + j) * C + c) * K + k < I * J * C * K"
        using that nn True by (intro wt_idx_bound) auto
      show ?thesis
        using a b len(1,2) mem(1,2)
        by (simp add: dload_def load_def seq_def tap_term_def Let_def)
    qed
    have loops: "for_loop 0 I (\<lambda>i. for_loop 0 J (\<lambda>j. for_loop 0 C (\<lambda>c acc.
                   let in_idx = ((h + i) * W + (w + j)) * C + c;
                       wt_idx = ((i * J + j) * C + c) * K + k
                   in seq (dload mem input in_idx) (\<lambda>a.
                      seq (dload mem weight wt_idx) (\<lambda>b.
                      Some (Inr (acc + a * b))))))) 0
        = Some (Inr (conv2d_ref inp wt W I J C K h w k))"
      using for_loop3_accum[where P = "\<lambda>_. True" and s = "0::'a" and na = I and nb = J and nc = C
          and step = "\<lambda>acc t. acc + tap_term inp wt W J C K h w k t"
          and body = "\<lambda>i j c acc. let in_idx = ((h + i) * W + (w + j)) * C + c;
                       wt_idx = ((i * J + j) * C + c) * K + k
                   in seq (dload mem input in_idx) (\<lambda>a.
                      seq (dload mem weight wt_idx) (\<lambda>b.
                      Some (Inr (acc + a * b))))"]
        body
      by (simp add: conv2d_ref_def ordered_sum_def conv_taps_triples foldl_map)
    have a: "0 \<le> h * Wo + w \<and> h * Wo + w < Ho * Wo"
      using True nn by (intro idx2_bound) auto
    have b: "0 \<le> (h * Wo + w) * K + k \<and> (h * Wo + w) * K + k < Ho * Wo * K"
      using a True nn by (intro idx2_bound) auto
    have st: "dstore mem out ((h * Wo + w) * K + k) v = Some (Inr (mem(out := Some (buf[nat ((h * Wo + w) * K + k) := v]))))"
      for v
      using b len(3) mem(3) by (simp add: dstore_def store_def seq_def Ho_def Wo_def)
    show ?thesis
      using True loops st
      by (simp add: conv2d_kernel_def Let_def conv_thread_step_def seq_def
          flip: h_def w_def k_def Ho_def Wo_def)
  qed
qed

lemma set_conv_threads:
  "((bz, by, bx), (tz, ty, tx)) \<in> set (conv_threads gx gy gz) \<longleftrightarrow>
     0 \<le> bz \<and> bz < gz \<and> 0 \<le> by \<and> by < gy \<and> 0 \<le> bx \<and> bx < gx \<and> tz = 0 \<and> 0 \<le> ty \<and> ty < 16 \<and> 0 \<le> tx \<and> tx < 16"
  by (force simp: conv_threads_def set_triples)

lemma foldl_heap_buffer:
  assumes "mem p = Some buf"
  shows "foldl (\<lambda>m x. m(p := Some (G x (the (m p))))) mem xs = mem(p := Some (foldl (\<lambda>b x. G x b) buf xs))"
  using assms
proof (induction xs arbitrary: mem buf)
  case Nil
  then show ?case by (simp add: fun_upd_idem)
next
  case (Cons x xs)
  have "foldl (\<lambda>m x. m(p := Some (G x (the (m p))))) (mem(p := Some (G x buf))) xs
      = (mem(p := Some (G x buf)))(p := Some (foldl (\<lambda>b x. G x b) (G x buf) xs))"
    by (rule Cons.IH) simp
  moreover have "foldl (\<lambda>m x. m(p := Some (G x (the (m p))))) mem (x # xs)
      = foldl (\<lambda>m x. m(p := Some (G x (the (m p))))) (mem(p := Some (G x buf))) xs"
    using Cons.prems by (simp only: foldl_Cons option.sel)
  ultimately show ?case by (simp only: fun_upd_upd foldl_Cons)
qed

lemma length_conv_thread_step:
  "length (conv_thread_step inp wt W I J C K Ho Wo cell buf) = length buf"
  by (cases cell) (simp add: conv_thread_step_def)

lemma length_foldl_conv_thread_step:
  "length (foldl (\<lambda>b x. conv_thread_step inp wt W I J C K Ho Wo (cellf x) b) buf xs) = length buf"
  by (induction xs arbitrary: buf) (auto simp: length_conv_thread_step)

lemma conv2d_launch:
  fixes inp wt buf0 :: "'a::{zero,plus,times} list"
  assumes dev: "\<not> sticky s" "device s input = Some inp" "device s weight = Some wt" "device s out = Some buf0"
      "out \<noteq> input" "out \<noteq> weight"
    and len: "int (length inp) = H * W * C" "int (length wt) = I * J * C * K"
      "int (length buf0) = (H - I + 1) * (W - J + 1) * K"
    and par: "0 \<le> I" "0 \<le> J"
  shows "launch (gx, gy, gz) (16, 16, 1)
           (\<lambda>blockIdx. each_thread (16, 16, 1) (conv2d_kernel input weight out H W I J C K blockIdx (16, 16, 1))) s
     = Some (Inr (s\<lparr>device := (device s)(out := Some (foldl
           (\<lambda>b x. conv_thread_step inp wt W I J C K (H - I + 1) (W - J + 1) (conv_cell 16 16 1 x) b)
           buf0 (conv_threads gx gy gz))),
         trace := trace s @ [Launch (gx, gy, gz) (16, 16, 1)]\<rparr>))"
proof -
  define Ho where "Ho = H - I + 1"
  define Wo where "Wo = W - J + 1"
  define G where "G = (\<lambda>x. conv_thread_step inp wt W I J C K Ho Wo (conv_cell 16 16 1 x))"
  define hstep :: "'a heap \<Rightarrow> (int \<times> int \<times> int) \<times> (int \<times> int \<times> int) \<Rightarrow> 'a heap"
    where "hstep = (\<lambda>m x. m(out := Some (G x (the (m out)))))"
  define P :: "'a heap \<Rightarrow> bool" where "P = (\<lambda>m. m input = Some inp \<and> m weight = Some wt \<and>
      (\<exists>buf. m out = Some buf \<and> length buf = length buf0))"
  have P0: "P (device s)" using dev by (simp add: P_def)
  have Pstep: "P (hstep m x)" if "P m" for m x
    using that dev(5,6) by (auto simp: P_def hstep_def G_def length_conv_thread_step)
  have thread: "conv2d_kernel input weight out H W I J C K (bx, by, bz) (16, 16, 1) (tx, ty, tz) m
        = Some (Inr (hstep m ((bz, by, bx), (tz, ty, tx)))) \<and> P (hstep m ((bz, by, bx), (tz, ty, tx)))"
    if "0 \<le> bx" "0 \<le> by" "0 \<le> bz" "0 \<le> tx" "0 \<le> ty" "0 \<le> tz" "P m" for bx "by" bz tx ty tz m
  proof -
    from that(7) obtain buf where m: "m input = Some inp" "m weight = Some wt" "m out = Some buf"
      and lb: "length buf = length buf0" by (auto simp: P_def)
    have "conv2d_kernel input weight out H W I J C K (bx, by, bz) (16, 16, 1) (tx, ty, tz) m =
       Some (Inr (m(out := Some (conv_thread_step inp wt W I J C K (H - I + 1) (W - J + 1)
          (by * 16 + ty, bx * 16 + tx, bz * 1 + tz) buf))))"
      using m len lb par that by (intro conv2d_kernel_thread) auto
    then have "conv2d_kernel input weight out H W I J C K (bx, by, bz) (16, 16, 1) (tx, ty, tz) m =
       Some (Inr (hstep m ((bz, by, bx), (tz, ty, tx))))"
      using m(3) by (simp add: hstep_def G_def conv_cell_def Ho_def Wo_def)
    then show ?thesis
      using Pstep[OF that(7), of "((bz, by, bx), (tz, ty, tx))"] by simp
  qed
  have block: "each_thread (16, 16, 1) (conv2d_kernel input weight out H W I J C K (bx, by, bz) (16, 16, 1)) m
        = Some (Inr (foldl hstep m (map (\<lambda>t. ((bz, by, bx), t)) (triples 1 16 16))))
        \<and> P (foldl hstep m (map (\<lambda>t. ((bz, by, bx), t)) (triples 1 16 16)))"
    if "0 \<le> bx" "0 \<le> by" "0 \<le> bz" "P m" for bx "by" bz m
    using each_thread_accum[where P = P and s = m and bdx = 16 and bdy = 16 and bdz = 1
        and step = "\<lambda>t th. hstep t ((bz, by, bx), th)"
        and thread = "conv2d_kernel input weight out H W I J C K (bx, by, bz) (16, 16, 1)"]
      thread that by (simp add: foldl_map)
  have grid: "for_loop 0 gz (\<lambda>bz. for_loop 0 gy (\<lambda>by. for_loop 0 gx (\<lambda>bx.
        each_thread (16, 16, 1) (conv2d_kernel input weight out H W I J C K (bx, by, bz) (16, 16, 1))))) (device s)
      = Some (Inr (foldl hstep (device s) (conv_threads gx gy gz)))"
    using for_loop3_accum[where P = P and s = "device s" and na = gz and nb = gy and nc = gx
        and step = "\<lambda>m b. foldl hstep m (map (\<lambda>t. (b, t)) (triples 1 16 16))"
        and body = "\<lambda>bz by bx. each_thread (16, 16, 1) (conv2d_kernel input weight out H W I J C K (bx, by, bz) (16, 16, 1))"]
      block P0 by (simp add: foldl_nest conv_threads_def)
  have "foldl hstep (device s) (conv_threads gx gy gz)
      = (device s)(out := Some (foldl (\<lambda>b x. G x b) buf0 (conv_threads gx gy gz)))"
    unfolding hstep_def using dev(4) by (rule foldl_heap_buffer)
  with grid show ?thesis
    using dev(1) by (simp add: launch_def G_def Ho_def Wo_def)
qed

lemma cudaMalloc_ok:
  assumes "api_status env site = cudaSuccess" "\<not> sticky s" "0 \<le> n"
  shows "cudaMalloc env site n s = Some (Inr (cudaSuccess, brk s,
     s\<lparr>device := (device s)(brk s := Some (map (garbage env) [0..<nat n])),
       brk := brk s + 1, trace := trace s @ [Api CudaMalloc cudaSuccess]\<rparr>))"
  using assms by (simp add: cudaMalloc_def api_result_def Let_def)

lemma cudaMemcpyHostToDevice_ok:
  assumes "api_status env site = cudaSuccess" "\<not> sticky s"
    and "device s dst = Some d" "host s src = Some h" "0 \<le> n" "n \<le> int (length d)" "n \<le> int (length h)"
  shows "cudaMemcpyHostToDevice env site dst src n s = Some (Inr (cudaSuccess,
     s\<lparr>trace := trace s @ [Api CudaMemcpy cudaSuccess],
       device := (device s)(dst := Some (take (nat n) h @ drop (nat n) d))\<rparr>))"
  using assms by (simp add: cudaMemcpyHostToDevice_def api_result_def Let_def)

lemma cudaMemcpyDeviceToHost_ok:
  assumes "api_status env site = cudaSuccess" "\<not> sticky s"
    and "device s src = Some d" "host s dst = Some h" "0 \<le> n" "n \<le> int (length d)" "n \<le> int (length h)"
  shows "cudaMemcpyDeviceToHost env site dst src n s = Some (Inr (cudaSuccess,
     s\<lparr>trace := trace s @ [Api CudaMemcpy cudaSuccess],
       host := (host s)(dst := Some (take (nat n) d @ drop (nat n) h))\<rparr>))"
  using assms by (simp add: cudaMemcpyDeviceToHost_def api_result_def Let_def)

lemma cudaDeviceSynchronize_ok:
  assumes "api_status env site = cudaSuccess" "\<not> sticky s"
  shows "cudaDeviceSynchronize env site s = Some (Inr (cudaSuccess,
     s\<lparr>trace := trace s @ [Api CudaDeviceSynchronize cudaSuccess]\<rparr>))"
  using assms by (simp add: cudaDeviceSynchronize_def api_result_def Let_def)

lemma cudaFree_ok:
  assumes "api_status env site = cudaSuccess" "\<not> sticky s" "device s p = Some d"
  shows "cudaFree env site p s = Some (Inr (cudaSuccess,
     s\<lparr>trace := trace s @ [Api CudaFree cudaSuccess], device := (device s)(p := None)\<rparr>))"
  using assms by (simp add: cudaFree_def api_result_def Let_def)




lemma length_conv_device_result:
  "length (conv_device_result env inp wt H W I J C K) = nat ((H - I + 1) * (W - J + 1) * K)"
  by (simp add: conv_device_result_def length_foldl_conv_thread_step)

lemma seq_Inr: "seq (Some (Inr x)) f = f x"
  by (simp add: seq_def)

lemma conv2d_gpgpusim_run:
  fixes inp wt buf :: "'a::{zero,plus,times} list"
  assumes par: "0 \<le> I" "I \<le> H" "0 \<le> J" "J \<le> W" "0 \<le> C" "0 \<le> K"
    and hst: "host s input = Some inp" "host s weight = Some wt" "host s out = Some buf"
    and len: "int (length inp) = H * W * C" "int (length wt) = I * J * C * K"
      "int (length buf) = (H - I + 1) * (W - J + 1) * K"
    and env: "\<And>site. api_status env site = cudaSuccess"
    and ns: "\<not> sticky s"
  shows "\<exists>s'. conv2d_gpgpusim env input weight out H W I J C K s = Some (Inr s') \<and>
     host s' = (host s)(out := Some (conv_device_result env inp wt H W I J C K)) \<and>
     trace s' = trace s @ [Api CudaMalloc cudaSuccess, Api CudaMalloc cudaSuccess, Api CudaMalloc cudaSuccess,
       Api CudaMemcpy cudaSuccess, Api CudaMemcpy cudaSuccess,
       Launch ((W - J + 1 + 16 - 1) div 16, (H - I + 1 + 16 - 1) div 16, (K + 1 - 1) div 1) (16, 16, 1),
       Api CudaMemcpy cudaSuccess, Api CudaFree cudaSuccess, Api CudaFree cudaSuccess, Api CudaFree cudaSuccess]"
proof -
  define Ho where "Ho = H - I + 1"
  define Wo where "Wo = W - J + 1"
  define n1 where "n1 = H * W * C"
  define n2 where "n2 = I * J * C * K"
  define n3 where "n3 = Ho * Wo * K"
  define b where "b = brk s"
  define g1 where "g1 = map (garbage env) [0..<nat n1]"
  define g2 where "g2 = map (garbage env) [0..<nat n2]"
  define g3 where "g3 = map (garbage env) [0..<nat n3]"
  define grid where "grid = ((Wo + 16 - 1) div 16, (Ho + 16 - 1) div 16, (K + 1 - 1) div 1)"
  define res where "res = conv_device_result env inp wt H W I J C K"
  have nn: "0 \<le> n1" "0 \<le> n2" "0 \<le> n3" "0 \<le> Ho" "0 \<le> Wo"
    using par len by (auto simp: n1_def n2_def n3_def Ho_def Wo_def simp flip: len)
  define s1 where "s1 = s\<lparr>device := (device s)(b := Some g1), brk := b + 1,
      trace := trace s @ [Api CudaMalloc cudaSuccess]\<rparr>"
  have f1: "host s1 = host s" "device s1 = (device s)(b := Some g1)" "brk s1 = b + 1" "\<not> sticky s1"
      "trace s1 = trace s @ [Api CudaMalloc cudaSuccess]"
    using ns by (simp_all add: s1_def)
  have c1: "cudaMalloc env 0 n1 s = Some (Inr (cudaSuccess, b, s1))"
    using env ns nn by (simp add: cudaMalloc_ok s1_def b_def g1_def)
  define s2 where "s2 = s1\<lparr>device := (device s1)(b + 1 := Some g2), brk := b + 1 + 1,
      trace := trace s1 @ [Api CudaMalloc cudaSuccess]\<rparr>"
  have f2: "host s2 = host s" "device s2 = (device s)(b := Some g1, b + 1 := Some g2)" "brk s2 = b + 2" "\<not> sticky s2"
      "trace s2 = trace s @ [Api CudaMalloc cudaSuccess, Api CudaMalloc cudaSuccess]"
    using f1 by (simp_all add: s2_def)
  have c2: "cudaMalloc env 1 n2 s1 = Some (Inr (cudaSuccess, b + 1, s2))"
    using env f1 nn cudaMalloc_ok[of env 1 s1 n2] by (simp add: s2_def g2_def)
  define s3 where "s3 = s2\<lparr>device := (device s2)(b + 2 := Some g3), brk := b + 2 + 1,
      trace := trace s2 @ [Api CudaMalloc cudaSuccess]\<rparr>"
  have f3: "host s3 = host s" "device s3 = (device s)(b := Some g1, b + 1 := Some g2, b + 2 := Some g3)" "\<not> sticky s3"
      "trace s3 = trace s @ [Api CudaMalloc cudaSuccess, Api CudaMalloc cudaSuccess, Api CudaMalloc cudaSuccess]"
    using f2 by (simp_all add: s3_def)
  have c3: "cudaMalloc env 2 n3 s2 = Some (Inr (cudaSuccess, b + 2, s3))"
    using env f2 nn cudaMalloc_ok[of env 2 s2 n3] by (simp add: s3_def g3_def)
  define s4 where "s4 = s3\<lparr>trace := trace s3 @ [Api CudaMemcpy cudaSuccess],
      device := (device s3)(b := Some (take (nat n1) inp @ drop (nat n1) g1))\<rparr>"
  have f4: "host s4 = host s" "device s4 = (device s)(b := Some inp, b + 1 := Some g2, b + 2 := Some g3)" "\<not> sticky s4"
      "trace s4 = trace s @ [Api CudaMalloc cudaSuccess, Api CudaMalloc cudaSuccess, Api CudaMalloc cudaSuccess,
         Api CudaMemcpy cudaSuccess]"
    using f3 len nn by (auto simp: s4_def n1_def g1_def fun_upd_twist)
  have c4: "cudaMemcpyHostToDevice env 3 b input n1 s3 = Some (Inr (cudaSuccess, s4))"
    unfolding s4_def using env f3 nn len hst
    by (intro cudaMemcpyHostToDevice_ok) (auto simp: g1_def n1_def)
  define s5 where "s5 = s4\<lparr>trace := trace s4 @ [Api CudaMemcpy cudaSuccess],
      device := (device s4)(b + 1 := Some (take (nat n2) wt @ drop (nat n2) g2))\<rparr>"
  have f5: "host s5 = host s" "device s5 = (device s)(b := Some inp, b + 1 := Some wt, b + 2 := Some g3)" "\<not> sticky s5"
      "trace s5 = trace s @ [Api CudaMalloc cudaSuccess, Api CudaMalloc cudaSuccess, Api CudaMalloc cudaSuccess,
         Api CudaMemcpy cudaSuccess, Api CudaMemcpy cudaSuccess]"
    using f4 len nn by (auto simp: s5_def n2_def g2_def fun_upd_twist)
  have c5: "cudaMemcpyHostToDevice env 4 (b + 1) weight n2 s4 = Some (Inr (cudaSuccess, s5))"
    unfolding s5_def using env f4 nn len hst
    by (intro cudaMemcpyHostToDevice_ok) (auto simp: g2_def n2_def)
  define s6 where "s6 = s5\<lparr>device := (device s5)(b + 2 := Some res), trace := trace s5 @ [Launch grid (16, 16, 1)]\<rparr>"
  have f6: "host s6 = host s" "device s6 = (device s)(b := Some inp, b + 1 := Some wt, b + 2 := Some res)" "\<not> sticky s6"
      "trace s6 = trace s @ [Api CudaMalloc cudaSuccess, Api CudaMalloc cudaSuccess, Api CudaMalloc cudaSuccess,
         Api CudaMemcpy cudaSuccess, Api CudaMemcpy cudaSuccess, Launch grid (16, 16, 1)]"
    using f5 by (simp_all add: s6_def)
  have c6: "launch grid (16, 16, 1)
      (\<lambda>blockIdx. each_thread (16, 16, 1) (conv2d_kernel b (b + 1) (b + 2) H W I J C K blockIdx (16, 16, 1))) s5
      = Some (Inr s6)"
  proof -
    have "launch ((Wo + 16 - 1) div 16, (Ho + 16 - 1) div 16, (K + 1 - 1) div 1) (16, 16, 1)
        (\<lambda>blockIdx. each_thread (16, 16, 1) (conv2d_kernel b (b + 1) (b + 2) H W I J C K blockIdx (16, 16, 1))) s5
      = Some (Inr (s5\<lparr>device := (device s5)(b + 2 := Some (foldl
           (\<lambda>b x. conv_thread_step inp wt W I J C K (H - I + 1) (W - J + 1) (conv_cell 16 16 1 x) b)
           g3 (conv_threads ((Wo + 16 - 1) div 16) ((Ho + 16 - 1) div 16) ((K + 1 - 1) div 1)))),
         trace := trace s5 @ [Launch ((Wo + 16 - 1) div 16, (Ho + 16 - 1) div 16, (K + 1 - 1) div 1) (16, 16, 1)]\<rparr>))"
      using f5 len par nn
      by (intro conv2d_launch) (auto simp: g3_def n3_def Ho_def Wo_def)
    then show ?thesis
      by (simp add: s6_def grid_def res_def conv_device_result_def g3_def n3_def Ho_def Wo_def)
  qed
  have lres: "int (length res) = n3"
    using nn by (simp add: res_def length_conv_device_result n3_def Ho_def Wo_def)
  define s7 where "s7 = s6\<lparr>trace := trace s6 @ [Api CudaMemcpy cudaSuccess],
      host := (host s6)(out := Some (take (nat n3) res @ drop (nat n3) buf))\<rparr>"
  have f7: "host s7 = (host s)(out := Some res)" "device s7 = device s6" "\<not> sticky s7"
      "trace s7 = trace s6 @ [Api CudaMemcpy cudaSuccess]"
    using f6 lres len by (auto simp: s7_def n3_def Ho_def Wo_def)
  have c7: "cudaMemcpyDeviceToHost env 5 out (b + 2) n3 s6 = Some (Inr (cudaSuccess, s7))"
    unfolding s7_def using env f6 nn len hst lres
    by (intro cudaMemcpyDeviceToHost_ok) (auto simp: n3_def Ho_def Wo_def)
  define s8 where "s8 = s7\<lparr>trace := trace s7 @ [Api CudaFree cudaSuccess], device := (device s7)(b := None)\<rparr>"
  have f8: "host s8 = host s7" "device s8 = (device s7)(b := None)" "\<not> sticky s8"
      "trace s8 = trace s7 @ [Api CudaFree cudaSuccess]"
    using f7 by (simp_all add: s8_def)
  have c8: "cudaFree env 6 b s7 = Some (Inr (cudaSuccess, s8))"
    unfolding s8_def using env f7 f6 by (intro cudaFree_ok[where d = inp]) auto
  define s9 where "s9 = s8\<lparr>trace := trace s8 @ [Api CudaFree cudaSuccess], device := (device s8)(b + 1 := None)\<rparr>"
  have f9: "host s9 = host s7" "device s9 = (device s8)(b + 1 := None)" "\<not> sticky s9"
      "trace s9 = trace s8 @ [Api CudaFree cudaSuccess]"
    using f8 by (simp_all add: s9_def)
  have c9: "cudaFree env 7 (b + 1) s8 = Some (Inr (cudaSuccess, s9))"
    unfolding s9_def using env f8 f7 f6 by (intro cudaFree_ok[where d = wt]) auto
  define s10 where "s10 = s9\<lparr>trace := trace s9 @ [Api CudaFree cudaSuccess], device := (device s9)(b + 2 := None)\<rparr>"
  have f10: "host s10 = host s7" "trace s10 = trace s9 @ [Api CudaFree cudaSuccess]"
    using f9 by (simp_all add: s10_def)
  have c10: "cudaFree env 8 (b + 2) s9 = Some (Inr (cudaSuccess, s10))"
    unfolding s10_def using env f9 f8 f7 f6 by (intro cudaFree_ok[where d = res]) auto
  have run: "conv2d_gpgpusim env input weight out H W I J C K s = Some (Inr s10)"
    unfolding conv2d_gpgpusim_def Let_def
    unfolding Ho_def[symmetric] Wo_def[symmetric]
    unfolding n1_def[symmetric] n2_def[symmetric] n3_def[symmetric] grid_def[symmetric]
    by (simp only: seq_Inr prod.case c1 c2 c3 c4 c5 c6 c7 c8 c9 c10)
  have "host s10 = (host s)(out := Some res)"
    using f10 f7 by simp
  moreover have "trace s10 = trace s @ [Api CudaMalloc cudaSuccess, Api CudaMalloc cudaSuccess, Api CudaMalloc cudaSuccess,
       Api CudaMemcpy cudaSuccess, Api CudaMemcpy cudaSuccess, Launch grid (16, 16, 1),
       Api CudaMemcpy cudaSuccess, Api CudaFree cudaSuccess, Api CudaFree cudaSuccess, Api CudaFree cudaSuccess]"
    using f10 f9 f8 f7 f6 by simp
  ultimately show ?thesis
    using run by (simp add: res_def grid_def Ho_def Wo_def)
qed





lemma gemm_load_tiles_thread:
  fixes a b :: "'a::{zero,plus,times} list"
  assumes mem: "global blk A = Some a" "global blk B = Some b"
    and len: "int (length a) = M * K" "int (length b) = K * N"
    and idx: "0 \<le> bx" "0 \<le> by" "0 \<le> t" "0 \<le> tx" "tx < 16" "0 \<le> ty" "ty < 16"
  shows "gemm_load_tiles A B M N K (bx, by, bz) t (tx, ty, tz) blk =
     Some (Inr (blk\<lparr>sA := (sA blk)((ty, tx) := padA a M K (by * 16 + ty) (t * 16 + tx)),
                     sB := (sB blk)((ty, tx) := padB b N K (t * 16 + ty) (bx * 16 + tx))\<rparr>))"
proof -
  define row where "row = by * 16 + ty"
  define col where "col = bx * 16 + tx"
  have nn: "0 \<le> row" "0 \<le> col" "0 \<le> t * 16 + tx" "0 \<le> t * 16 + ty"
    using idx by (auto simp: row_def col_def)
  have la: "(if row < M \<and> t * 16 + tx < K then dload (global blk) A (row * K + (t * 16 + tx)) else Some (Inr 0))
      = Some (Inr (padA a M K row (t * 16 + tx)))"
  proof (cases "row < M \<and> t * 16 + tx < K")
    case True
    then have "0 \<le> row * K + (t * 16 + tx) \<and> row * K + (t * 16 + tx) < M * K"
      using nn by (intro idx2_bound) auto
    then show ?thesis using True mem len by (simp add: dload_def load_def padA_def)
  next
    case False
    then show ?thesis by (auto simp: padA_def)
  qed
  have lb: "(if t * 16 + ty < K \<and> col < N then dload (global blk) B ((t * 16 + ty) * N + col) else Some (Inr 0))
      = Some (Inr (padB b N K (t * 16 + ty) col))"
  proof (cases "t * 16 + ty < K \<and> col < N")
    case True
    then have "0 \<le> (t * 16 + ty) * N + col \<and> (t * 16 + ty) * N + col < K * N"
      using nn by (intro idx2_bound) auto
    then show ?thesis using True mem len by (simp add: dload_def load_def padB_def)
  next
    case False
    then show ?thesis by (auto simp: padB_def)
  qed
  show ?thesis
    unfolding gemm_load_tiles_def prod.case Let_def TILE_M_def TILE_N_def TILE_K_def
    unfolding row_def[symmetric] col_def[symmetric]
    unfolding la lb seq_Inr
    using idx by (simp add: shared_store_def seq_def)
qed

lemma gemm_compute_tile_thread:
  fixes blk :: "'a::{zero,plus,times} gemm_block"
  assumes "0 \<le> tx" "tx < 16" "0 \<le> ty" "ty < 16"
  shows "gemm_compute_tile (tx, ty, tz) blk =
     Some (Inr (blk\<lparr>sum_reg := (sum_reg blk)((ty, tx) :=
        foldl (+) (sum_reg blk (ty, tx)) (map (\<lambda>k. sA blk (ty, k) * sB blk (k, tx)) [0..16 - 1]))\<rparr>))"
proof -
  have "for_loop 0 TILE_K (\<lambda>k acc.
            seq (shared_load (sA blk) TILE_M TILE_K ty k) (\<lambda>a.
            seq (shared_load (sB blk) TILE_K TILE_N k tx) (\<lambda>b.
            Some (Inr (acc + a * b)))))
          (sum_reg blk (ty, tx))
      = Some (Inr (foldl (\<lambda>acc k. acc + sA blk (ty, k) * sB blk (k, tx)) (sum_reg blk (ty, tx)) [0..TILE_K - 1]))"
    using for_loop_accum[where P = "\<lambda>_. True" and x = 0 and n = TILE_K and s = "sum_reg blk (ty, tx)"
        and step = "\<lambda>acc k. acc + sA blk (ty, k) * sB blk (k, tx)"
        and body = "\<lambda>k acc. seq (shared_load (sA blk) TILE_M TILE_K ty k) (\<lambda>a.
            seq (shared_load (sB blk) TILE_K TILE_N k tx) (\<lambda>b. Some (Inr (acc + a * b))))"]
      assms
    by (simp add: shared_load_def seq_def TILE_M_def TILE_N_def TILE_K_def)
  then show ?thesis
    by (simp add: gemm_compute_tile_def seq_def foldl_map TILE_K_def)
qed

lemma gemm_store_thread:
  fixes blk :: "'a::{zero,plus,times} gemm_block"
  assumes "global blk C = Some c" "int (length c) = M * N"
    and "0 \<le> bx" "0 \<le> by" "0 \<le> tx" "0 \<le> ty"
  shows "gemm_store C M N (bx, by, bz) (tx, ty, tz) blk =
     Some (Inr (if by * 16 + ty < M \<and> bx * 16 + tx < N
                then blk\<lparr>global := (global blk)(C := Some (c[nat ((by * 16 + ty) * N + (bx * 16 + tx)) := sum_reg blk (ty, tx)]))\<rparr>
                else blk))"
proof (cases "by * 16 + ty < M \<and> bx * 16 + tx < N")
  case True
  then have "0 \<le> (by * 16 + ty) * N + (bx * 16 + tx) \<and> (by * 16 + ty) * N + (bx * 16 + tx) < M * N"
    using assms by (intro idx2_bound) auto
  then show ?thesis
    using True assms(1,2)
    by (simp add: gemm_store_def Let_def TILE_M_def TILE_N_def dstore_def store_def seq_def)
next
  case False
  then show ?thesis
    by (auto simp: gemm_store_def Let_def TILE_M_def TILE_N_def)
qed

lemma gemm_init_thread:
  "gemm_init (tx, ty, tz) blk = Some (Inr (blk\<lparr>sum_reg := (sum_reg blk)((ty, tx) := 0)\<rparr>))"
  by (simp add: gemm_init_def)

lemma for_loop_inv:
  assumes "x \<le> n" "Inv x s"
    and "\<And>y t. x \<le> y \<Longrightarrow> y < n \<Longrightarrow> Inv y t \<Longrightarrow> \<exists>t'. body y t = Some (Inr t') \<and> Inv (y + 1) t'"
  shows "\<exists>t'. for_loop x n body s = Some (Inr t') \<and> Inv n t'"
  using assms
proof (induction "nat (n - x)" arbitrary: x s)
  case 0
  then have "x = n" by simp
  then show ?case using 0 by (simp add: for_loop_done)
next
  case (Suc m)
  then have lt: "x < n" by linarith
  from Suc.prems(3)[of x s] lt Suc.prems(2)
  obtain t where t: "body x s = Some (Inr t)" "Inv (x + 1) t" by auto
  have "\<exists>t'. for_loop (x + 1) n body t = Some (Inr t') \<and> Inv n t'"
    using Suc.hyps(2) lt t(2) Suc.prems(3) by (intro Suc.hyps(1)) auto
  then show ?case using t(1) lt by (simp add: for_loop_step seq_def)
qed

lemma distinct_triples:
  assumes "0 \<le> na" "0 \<le> nb" "0 \<le> nc"
  shows "distinct (triples na nb nc)"
proof -
  have "distinct (map (flat_idx nb nc) (out_points na nb nc))"
    using out_points_idx[OF assms] by simp
  then show ?thesis by (simp add: distinct_map out_points_triples)
qed

lemma distinct_cell_keys: "distinct (map cell_key (triples 1 16 16))"
proof -
  have "distinct (triples 1 16 16)" by (rule distinct_triples) auto
  moreover have "inj_on cell_key (set (triples 1 16 16))"
    by (auto simp: inj_on_def cell_key_def set_triples)
  ultimately show ?thesis by (simp add: distinct_map)
qed

lemma cell_in_block:
  "0 \<le> ty \<Longrightarrow> ty < 16 \<Longrightarrow> 0 \<le> tx \<Longrightarrow> tx < 16 \<Longrightarrow> (0, ty, tx) \<in> set (triples 1 16 16)"
  by (simp add: set_triples)

lemma foldl_fun_upd_const:
  assumes "t \<in> set ts" "\<And>u. u \<in> set ts \<Longrightarrow> key u = key t \<Longrightarrow> val u = val t"
  shows "foldl (\<lambda>f u. f(key u := val u)) f0 ts (key t) = val t"
  using assms
proof (induction ts arbitrary: f0 rule: rev_induct)
  case Nil
  then show ?case by simp
next
  case (snoc u us)
  have unfold: "foldl (\<lambda>f u. f(key u := val u)) f0 (us @ [u]) (key t)
      = (if key u = key t then val u else foldl (\<lambda>f u. f(key u := val u)) f0 us (key t))"
    by simp
  show ?case
  proof (cases "key u = key t")
    case True
    have "val u = val t" by (rule snoc.prems(2)) (simp_all add: True)
    then show ?thesis unfolding unfold using True by simp
  next
    case False
    then have tu: "t \<in> set us" using snoc.prems(1) by auto
    have "foldl (\<lambda>f u. f(key u := val u)) f0 us (key t) = val t"
    proof (rule snoc.IH)
      show "t \<in> set us" by (rule tu)
    next
      fix w assume w: "w \<in> set us" "key w = key t"
      show "val w = val t" by (rule snoc.prems(2)) (simp_all add: w)
    qed
    then show ?thesis unfolding unfold using False by simp
  qed
qed

lemma foldl_fun_upd_accum:
  assumes "distinct (map key ts)" "t \<in> set ts"
  shows "foldl (\<lambda>f u. f(key u := g u (f (key u)))) f0 ts (key t) = g t (f0 (key t))"
proof -
  define F where "F = (\<lambda>f u. f(key u := g u (f (key u))))"
  have other: "foldl F f1 us p = f1 p" if "p \<notin> key ` set us" for f1 us p
    using that by (induction us arbitrary: f1) (auto simp: F_def)
  have "foldl F f0 ts (key t) = g t (f0 (key t))"
    using assms
  proof (induction ts arbitrary: f0)
    case Nil
    then show ?case by simp
  next
    case (Cons u us)
    have cons: "foldl F f0 (u # us) = foldl F (F f0 u) us" by simp
    show ?case
    proof (cases "t = u")
      case True
      have "key u \<notin> key ` set us" using Cons.prems(1) by simp
      then have "foldl F (F f0 u) us (key u) = F f0 u (key u)" by (rule other)
      then show ?thesis unfolding cons using True by (simp add: F_def)
    next
      case False
      then have tu: "t \<in> set us" using Cons.prems(2) by simp
      then have "key t \<in> key ` set us" by (rule imageI)
      moreover have "key u \<notin> key ` set us" using Cons.prems(1) by simp
      ultimately have ne: "key t \<noteq> key u" by metis
      have "foldl F (F f0 u) us (key t) = g t (F f0 u (key t))"
        using Cons.prems(1) tu by (intro Cons.IH) auto
      then show ?thesis unfolding cons using ne by (simp add: F_def)
    qed
  qed
  then show ?thesis by (simp add: F_def)
qed

lemma gemm_init_phase:
  fixes blk :: "'a::{zero,plus,times} gemm_block"
  shows "\<exists>blk'. each_thread (16, 16, 1) gemm_init blk = Some (Inr blk') \<and>
     global blk' = global blk \<and> syncs blk' = syncs blk \<and>
     (\<forall>ty tx. 0 \<le> ty \<and> ty < 16 \<and> 0 \<le> tx \<and> tx < 16 \<longrightarrow> sum_reg blk' (ty, tx) = 0)"
proof -
  define step :: "'a gemm_block \<Rightarrow> int \<times> int \<times> int \<Rightarrow> 'a gemm_block"
    where "step = (\<lambda>blk t. blk\<lparr>sum_reg := (sum_reg blk)(cell_key t := 0)\<rparr>)"
  define blk' where "blk' = foldl step blk (triples 1 16 16)"
  have run: "each_thread (16, 16, 1) gemm_init blk = Some (Inr blk')"
    unfolding blk'_def
    using each_thread_accum[where P = "\<lambda>_. True" and s = blk and bdx = 16 and bdy = 16 and bdz = 1
        and step = step and thread = gemm_init]
    by (simp add: gemm_init_thread step_def cell_key_def)
  have shape: "foldl step b ts = b\<lparr>sum_reg := foldl (\<lambda>f u. f(cell_key u := 0)) (sum_reg b) ts\<rparr>" for b ts
    by (induction ts arbitrary: b) (auto simp: step_def)
  have "sum_reg blk' (ty, tx) = 0" if "0 \<le> ty" "ty < 16" "0 \<le> tx" "tx < 16" for ty tx
    using foldl_fun_upd_const[where key = cell_key and val = "\<lambda>_. 0" and t = "(0, ty, tx)"
        and ts = "triples 1 16 16" and ?f0.0 = "sum_reg blk"] cell_in_block[OF that]
    by (simp add: blk'_def shape cell_key_def)
  then show ?thesis
    using run by (intro exI[of _ blk']) (simp add: blk'_def shape)
qed

lemma gemm_load_phase:
  fixes a b :: "'a::{zero,plus,times} list"
  assumes mem: "global blk A = Some a" "global blk B = Some b"
    and len: "int (length a) = M * K" "int (length b) = K * N"
    and idx: "0 \<le> bx" "0 \<le> by" "0 \<le> t"
  shows "\<exists>blk'. each_thread (16, 16, 1) (gemm_load_tiles A B M N K (bx, by, bz) t) blk = Some (Inr blk') \<and>
     global blk' = global blk \<and> syncs blk' = syncs blk \<and> sum_reg blk' = sum_reg blk \<and>
     (\<forall>ty tx. 0 \<le> ty \<and> ty < 16 \<and> 0 \<le> tx \<and> tx < 16 \<longrightarrow>
        sA blk' (ty, tx) = padA a M K (by * 16 + ty) (t * 16 + tx) \<and>
        sB blk' (ty, tx) = padB b N K (t * 16 + ty) (bx * 16 + tx))"
proof -
  define va where "va = (\<lambda>u. case u of (tz :: int, ty, tx) \<Rightarrow> padA a M K (by * 16 + ty) (t * 16 + tx))"
  define vb where "vb = (\<lambda>u. case u of (tz :: int, ty, tx) \<Rightarrow> padB b N K (t * 16 + ty) (bx * 16 + tx))"
  define step :: "'a gemm_block \<Rightarrow> int \<times> int \<times> int \<Rightarrow> 'a gemm_block"
    where "step = (\<lambda>blk u. blk\<lparr>sA := (sA blk)(cell_key u := va u), sB := (sB blk)(cell_key u := vb u)\<rparr>)"
  define P :: "'a gemm_block \<Rightarrow> bool" where "P = (\<lambda>b. global b = global blk)"
  define blk' where "blk' = foldl step blk (triples 1 16 16)"
  have thread: "gemm_load_tiles A B M N K (bx, by, bz) t (tx, ty, tz) b1 = Some (Inr (step b1 (tz, ty, tx)))
      \<and> P (step b1 (tz, ty, tx))"
    if "0 \<le> tx" "tx < 16" "0 \<le> ty" "ty < 16" "P b1" for tx ty tz b1
    using gemm_load_tiles_thread[of b1 A a B b M K N bx "by" t tx ty bz tz] that mem len idx
    by (simp add: P_def step_def cell_key_def va_def vb_def)
  have run: "each_thread (16, 16, 1) (gemm_load_tiles A B M N K (bx, by, bz) t) blk = Some (Inr blk')"
    unfolding blk'_def
    using each_thread_accum[where P = P and s = blk and bdx = 16 and bdy = 16 and bdz = 1
        and step = step and thread = "gemm_load_tiles A B M N K (bx, by, bz) t"] thread
    by (simp add: P_def)
  have shape: "foldl step b1 ts = b1\<lparr>sA := foldl (\<lambda>f u. f(cell_key u := va u)) (sA b1) ts,
      sB := foldl (\<lambda>f u. f(cell_key u := vb u)) (sB b1) ts\<rparr>" for b1 ts
    by (induction ts arbitrary: b1) (auto simp: step_def)
  have cells: "sA blk' (ty, tx) = padA a M K (by * 16 + ty) (t * 16 + tx) \<and>
      sB blk' (ty, tx) = padB b N K (t * 16 + ty) (bx * 16 + tx)"
    if "0 \<le> ty" "ty < 16" "0 \<le> tx" "tx < 16" for ty tx
  proof -
    have m: "(0, ty, tx) \<in> set (triples 1 16 16)" using that by (rule cell_in_block)
    have ka: "va u = va (0, ty, tx)" if "cell_key u = cell_key (0, ty, tx)" for u
      using that by (cases u) (simp add: cell_key_def va_def)
    have kb: "vb u = vb (0, ty, tx)" if "cell_key u = cell_key (0, ty, tx)" for u
      using that by (cases u) (simp add: cell_key_def vb_def)
    have "foldl (\<lambda>f u. f(cell_key u := va u)) (sA blk) (triples 1 16 16) (cell_key (0, ty, tx)) = va (0, ty, tx)"
      using m ka by (intro foldl_fun_upd_const)
    moreover have "foldl (\<lambda>f u. f(cell_key u := vb u)) (sB blk) (triples 1 16 16) (cell_key (0, ty, tx)) = vb (0, ty, tx)"
      using m kb by (intro foldl_fun_upd_const)
    ultimately show ?thesis
      by (simp add: blk'_def shape cell_key_def va_def vb_def)
  qed
  show ?thesis
    using run cells by (intro exI[of _ blk']) (simp add: blk'_def shape)
qed

lemma gemm_compute_phase:
  fixes blk :: "'a::{zero,plus,times} gemm_block"
  shows "\<exists>blk'. each_thread (16, 16, 1) gemm_compute_tile blk = Some (Inr blk') \<and>
     global blk' = global blk \<and> syncs blk' = syncs blk \<and>
     (\<forall>ty tx. 0 \<le> ty \<and> ty < 16 \<and> 0 \<le> tx \<and> tx < 16 \<longrightarrow>
        sum_reg blk' (ty, tx) =
          foldl (+) (sum_reg blk (ty, tx)) (map (\<lambda>k. sA blk (ty, k) * sB blk (k, tx)) [0..16 - 1]))"
proof -
  define g where "g = (\<lambda>u old. case u of (tz :: int, ty, tx) \<Rightarrow>
      foldl (+) old (map (\<lambda>k. sA blk (ty, k) * sB blk (k, tx)) [0..16 - 1]))"
  define step :: "'a gemm_block \<Rightarrow> int \<times> int \<times> int \<Rightarrow> 'a gemm_block"
    where "step = (\<lambda>b1 u. b1\<lparr>sum_reg := (sum_reg b1)(cell_key u := g u (sum_reg b1 (cell_key u)))\<rparr>)"
  define P :: "'a gemm_block \<Rightarrow> bool" where "P = (\<lambda>b1. sA b1 = sA blk \<and> sB b1 = sB blk)"
  define blk' where "blk' = foldl step blk (triples 1 16 16)"
  have thread: "gemm_compute_tile (tx, ty, tz) b1 = Some (Inr (step b1 (tz, ty, tx))) \<and> P (step b1 (tz, ty, tx))"
    if "0 \<le> tx" "tx < 16" "0 \<le> ty" "ty < 16" "P b1" for tx ty tz b1
    using gemm_compute_tile_thread[of tx ty tz b1] that
    by (simp add: P_def step_def cell_key_def g_def)
  have run: "each_thread (16, 16, 1) gemm_compute_tile blk = Some (Inr blk')"
    unfolding blk'_def
    using each_thread_accum[where P = P and s = blk and bdx = 16 and bdy = 16 and bdz = 1
        and step = step and thread = gemm_compute_tile] thread
    by (simp add: P_def)
  have shape: "foldl step b1 ts = b1\<lparr>sum_reg := foldl (\<lambda>f u. f(cell_key u := g u (f (cell_key u)))) (sum_reg b1) ts\<rparr>"
    for b1 ts
    by (induction ts arbitrary: b1) (auto simp: step_def)
  have cells: "sum_reg blk' (ty, tx) = foldl (+) (sum_reg blk (ty, tx)) (map (\<lambda>k. sA blk (ty, k) * sB blk (k, tx)) [0..16 - 1])"
    if "0 \<le> ty" "ty < 16" "0 \<le> tx" "tx < 16" for ty tx
  proof -
    have m: "(0, ty, tx) \<in> set (triples 1 16 16)" using that by (rule cell_in_block)
    have "foldl (\<lambda>f u. f(cell_key u := g u (f (cell_key u)))) (sum_reg blk) (triples 1 16 16) (cell_key (0, ty, tx))
        = g (0, ty, tx) (sum_reg blk (cell_key (0, ty, tx)))"
      using distinct_cell_keys m by (rule foldl_fun_upd_accum)
    then show ?thesis
      by (simp add: blk'_def shape cell_key_def g_def)
  qed
  show ?thesis
    using run cells by (intro exI[of _ blk']) (simp add: blk'_def shape)
qed

lemma length_gemm_thread_step: "length (gemm_thread_step a b M N K cell buf) = length buf"
  by (cases cell) (simp add: gemm_thread_step_def)

lemma length_foldl_gemm_thread_step:
  "length (foldl (\<lambda>buf x. gemm_thread_step a b M N K (cellf x) buf) buf xs) = length buf"
  by (induction xs arbitrary: buf) (auto simp: length_gemm_thread_step)

lemma gemm_padded_0: "gemm_padded a b M N K 0 row col = 0"
  by (simp add: gemm_padded_def ordered_sum_def)

lemma gemm_padded_tile:
  assumes "0 \<le> t"
  shows "foldl (+) (gemm_padded a b M N K (t * 16) row col)
           (map (\<lambda>k. padA a M K row (t * 16 + k) * padB b N K (t * 16 + k) col) [0..16 - 1])
         = gemm_padded a b M N K ((t + 1) * 16) row col"
proof -
  have "[0..t * 16 + 16 - 1] = [0..t * 16 - 1] @ [t * 16..t * 16 + 16 - 1]"
    using assms by (intro upto_append) auto
  moreover have "[t * 16..t * 16 + 16 - 1] = map (\<lambda>y. t * 16 + y) [0..16 - 1]"
    by (rule upto_shift)
  ultimately have "[0..(t + 1) * 16 - 1] = [0..t * 16 - 1] @ map (\<lambda>y. t * 16 + y) [0..16 - 1]"
    by (simp add: algebra_simps)
  then show ?thesis
    by (simp add: gemm_padded_def ordered_sum_def o_def)
qed

lemma gemm_tile_step:
  fixes a b :: "'a::{zero,plus,times} list"
  assumes mem: "global blk A = Some a" "global blk B = Some b"
    and len: "int (length a) = M * K" "int (length b) = K * N"
    and idx: "0 \<le> bx" "0 \<le> by" "0 \<le> t"
    and acc: "\<And>ty tx. 0 \<le> ty \<Longrightarrow> ty < 16 \<Longrightarrow> 0 \<le> tx \<Longrightarrow> tx < 16 \<Longrightarrow>
        sum_reg blk (ty, tx) = gemm_padded a b M N K (t * 16) (by * 16 + ty) (bx * 16 + tx)"
  shows "\<exists>blk'. gemm_tile A B M N K (bx, by, bz) (16, 16, 1) t blk = Some (Inr blk') \<and>
     global blk' = global blk \<and> syncs blk' = syncs blk + 2 \<and>
     (\<forall>ty tx. 0 \<le> ty \<and> ty < 16 \<and> 0 \<le> tx \<and> tx < 16 \<longrightarrow>
        sum_reg blk' (ty, tx) = gemm_padded a b M N K ((t + 1) * 16) (by * 16 + ty) (bx * 16 + tx))"
proof -
  from gemm_load_phase[OF mem len idx, of bz] obtain b1 where
    r1: "each_thread (16, 16, 1) (gemm_load_tiles A B M N K (bx, by, bz) t) blk = Some (Inr b1)"
    and g1: "global b1 = global blk" "syncs b1 = syncs blk" "sum_reg b1 = sum_reg blk"
    and t1: "\<And>ty tx. 0 \<le> ty \<Longrightarrow> ty < 16 \<Longrightarrow> 0 \<le> tx \<Longrightarrow> tx < 16 \<Longrightarrow>
        sA b1 (ty, tx) = padA a M K (by * 16 + ty) (t * 16 + tx) \<and>
        sB b1 (ty, tx) = padB b N K (t * 16 + ty) (bx * 16 + tx)"
    by blast
  define b2 where "b2 = b1\<lparr>syncs := syncs b1 + 1\<rparr>"
  from gemm_compute_phase[of b2] obtain b3 where
    r3: "each_thread (16, 16, 1) gemm_compute_tile b2 = Some (Inr b3)"
    and g3: "global b3 = global b2" "syncs b3 = syncs b2"
    and t3: "\<And>ty tx. 0 \<le> ty \<Longrightarrow> ty < 16 \<Longrightarrow> 0 \<le> tx \<Longrightarrow> tx < 16 \<Longrightarrow>
        sum_reg b3 (ty, tx) = foldl (+) (sum_reg b2 (ty, tx)) (map (\<lambda>k. sA b2 (ty, k) * sB b2 (k, tx)) [0..16 - 1])"
    by blast
  define b4 where "b4 = b3\<lparr>syncs := syncs b3 + 1\<rparr>"
  have run: "gemm_tile A B M N K (bx, by, bz) (16, 16, 1) t blk = Some (Inr b4)"
    unfolding gemm_tile_def r1 seq_Inr syncthreads_def b2_def[symmetric] r3 b4_def[symmetric] ..
  have val: "sum_reg b4 (ty, tx) = gemm_padded a b M N K ((t + 1) * 16) (by * 16 + ty) (bx * 16 + tx)"
    if c: "0 \<le> ty" "ty < 16" "0 \<le> tx" "tx < 16" for ty tx
  proof -
    have meq: "map (\<lambda>k. sA b2 (ty, k) * sB b2 (k, tx)) [0..16 - 1]
        = map (\<lambda>k. padA a M K (by * 16 + ty) (t * 16 + k) * padB b N K (t * 16 + k) (bx * 16 + tx)) [0..16 - 1]"
      using t1 c by (intro map_cong) (auto simp: b2_def)
    have old: "sum_reg b2 (ty, tx) = gemm_padded a b M N K (t * 16) (by * 16 + ty) (bx * 16 + tx)"
      using acc[OF c] g1 by (simp add: b2_def)
    have "sum_reg b3 (ty, tx) = foldl (+) (gemm_padded a b M N K (t * 16) (by * 16 + ty) (bx * 16 + tx))
        (map (\<lambda>k. padA a M K (by * 16 + ty) (t * 16 + k) * padB b N K (t * 16 + k) (bx * 16 + tx)) [0..16 - 1])"
      by (simp only: t3[OF c] meq old)
    then show ?thesis
      using gemm_padded_tile[OF idx(3), of a b M N K "by * 16 + ty" "bx * 16 + tx"] by (simp add: b4_def)
  qed
  show ?thesis
    using run val g1 g3 by (intro exI[of _ b4]) (simp add: b4_def b2_def)
qed

lemma gemm_store_phase:
  fixes blk :: "'a::{zero,plus,times} gemm_block"
  assumes mem: "global blk C = Some c" "int (length c) = M * N"
    and idx: "0 \<le> bx" "0 \<le> by"
    and acc: "\<And>ty tx. 0 \<le> ty \<Longrightarrow> ty < 16 \<Longrightarrow> 0 \<le> tx \<Longrightarrow> tx < 16 \<Longrightarrow> sum_reg blk (ty, tx) = v (by * 16 + ty) (bx * 16 + tx)"
  shows "\<exists>blk'. each_thread (16, 16, 1) (gemm_store C M N (bx, by, bz)) blk = Some (Inr blk') \<and>
     syncs blk' = syncs blk \<and>
     global blk' = (global blk)(C := Some (foldl
        (\<lambda>buf u. case gemm_cell ((bz, by, bx), u) of (row, col) \<Rightarrow>
           if row < M \<and> col < N then buf[nat (row * N + col) := v row col] else buf)
        c (triples 1 16 16)))"
proof -
  define G where "G = (\<lambda>u buf. case gemm_cell ((bz, by, bx), u) of (row, col) \<Rightarrow>
           if row < M \<and> col < N then buf[nat (row * N + col) := v row col] else buf)"
  define step :: "'a gemm_block \<Rightarrow> int \<times> int \<times> int \<Rightarrow> 'a gemm_block"
    where "step = (\<lambda>b1 u. b1\<lparr>global := (global b1)(C := Some (G u (the (global b1 C))))\<rparr>)"
  define P :: "'a gemm_block \<Rightarrow> bool" where "P = (\<lambda>b1. sum_reg b1 = sum_reg blk \<and>
      (\<exists>c1. global b1 C = Some c1 \<and> length c1 = length c))"
  define blk' where "blk' = foldl step blk (triples 1 16 16)"
  have lenG: "length (G u buf) = length buf" for u buf
    by (simp add: G_def split_beta)
  have thread: "gemm_store C M N (bx, by, bz) (tx, ty, tz) b1 = Some (Inr (step b1 (tz, ty, tx))) \<and> P (step b1 (tz, ty, tx))"
    if c: "0 \<le> tx" "tx < 16" "0 \<le> ty" "ty < 16" and p: "P b1" for tx ty tz b1
  proof -
    from p obtain c1 where c1: "global b1 C = Some c1" "length c1 = length c" and s: "sum_reg b1 = sum_reg blk"
      by (auto simp: P_def)
    have l1: "int (length c1) = M * N" using c1 mem by simp
    have "gemm_store C M N (bx, by, bz) (tx, ty, tz) b1 =
        Some (Inr (if by * 16 + ty < M \<and> bx * 16 + tx < N
                then b1\<lparr>global := (global b1)(C := Some (c1[nat ((by * 16 + ty) * N + (bx * 16 + tx)) := sum_reg b1 (ty, tx)]))\<rparr>
                else b1))"
      using c1(1) l1 idx c(1,3) by (rule gemm_store_thread)
    moreover have "sum_reg b1 (ty, tx) = v (by * 16 + ty) (bx * 16 + tx)"
      using acc[OF c(3,4,1,2)] s by simp
    ultimately have "gemm_store C M N (bx, by, bz) (tx, ty, tz) b1 = Some (Inr (step b1 (tz, ty, tx)))"
      using c1(1) by (auto simp: step_def G_def gemm_cell_def fun_upd_idem)
    moreover have "P (step b1 (tz, ty, tx))"
      using p c1 by (simp add: P_def step_def lenG)
    ultimately show ?thesis by simp
  qed
  have P0: "P blk" using mem by (simp add: P_def)
  have run: "each_thread (16, 16, 1) (gemm_store C M N (bx, by, bz)) blk = Some (Inr blk')"
    unfolding blk'_def
    using each_thread_accum[where P = P and s = blk and bdx = 16 and bdy = 16 and bdz = 1
        and step = step and thread = "gemm_store C M N (bx, by, bz)"] thread P0
    by simp
  have shape: "foldl step b1 ts = b1\<lparr>global := foldl (\<lambda>m u. m(C := Some (G u (the (m C))))) (global b1) ts\<rparr>"
    for b1 ts
    by (induction ts arbitrary: b1) (auto simp: step_def)
  have "foldl (\<lambda>m u. m(C := Some (G u (the (m C))))) (global blk) (triples 1 16 16)
      = (global blk)(C := Some (foldl (\<lambda>buf u. G u buf) c (triples 1 16 16)))"
    using mem(1) by (rule foldl_heap_buffer)
  then show ?thesis
    using run by (intro exI[of _ blk']) (simp add: blk'_def shape G_def)
qed

lemma gemm_kernel_block_run:
  fixes a b c :: "'a::{zero,plus,times} list"
  assumes mem: "global blk A = Some a" "global blk B = Some b" "global blk C = Some c"
    and len: "int (length a) = M * K" "int (length b) = K * N" "int (length c) = M * N"
    and idx: "0 \<le> bx" "0 \<le> by" "0 \<le> K"
  shows "\<exists>blk'. gemm_kernel_block A B C M N K (bx, by, bz) (16, 16, 1) blk = Some (Inr blk') \<and>
     syncs blk' = syncs blk + 2 * nat ((K + 16 - 1) div 16) \<and>
     global blk' = (global blk)(C := Some (foldl
        (\<lambda>buf u. gemm_thread_step a b M N K (gemm_cell ((bz, by, bx), u)) buf) c (triples 1 16 16)))"
proof -
  define T where "T = (K + 16 - 1) div 16"
  have T: "(K + TILE_K - 1) sdiv TILE_K = T" "0 \<le> T"
    using idx(3) by (simp_all add: T_def TILE_K_def sdiv_nonneg)
  from gemm_init_phase[of blk] obtain b0 where
    r0: "each_thread (16, 16, 1) gemm_init blk = Some (Inr b0)"
    and g0: "global b0 = global blk" "syncs b0 = syncs blk"
    and s0: "\<And>ty tx. 0 \<le> ty \<Longrightarrow> ty < 16 \<Longrightarrow> 0 \<le> tx \<Longrightarrow> tx < 16 \<Longrightarrow> sum_reg b0 (ty, tx) = 0"
    by blast
  define Inv :: "int \<Rightarrow> 'a gemm_block \<Rightarrow> bool" where "Inv = (\<lambda>t b1.
      global b1 = global blk \<and> syncs b1 = syncs blk + 2 * nat t \<and>
      (\<forall>ty tx. 0 \<le> ty \<and> ty < 16 \<and> 0 \<le> tx \<and> tx < 16 \<longrightarrow>
         sum_reg b1 (ty, tx) = gemm_padded a b M N K (t * 16) (by * 16 + ty) (bx * 16 + tx)))"
  have I0: "Inv 0 b0"
    using g0 s0 by (simp add: Inv_def gemm_padded_0)
  have step: "\<exists>b2. gemm_tile A B M N K (bx, by, bz) (16, 16, 1) t b1 = Some (Inr b2) \<and> Inv (t + 1) b2"
    if "0 \<le> t" "t < T" "Inv t b1" for t b1
  proof -
    have m1: "global b1 A = Some a" "global b1 B = Some b"
      using that(3) mem by (simp_all add: Inv_def)
    have a1: "\<And>ty tx. 0 \<le> ty \<Longrightarrow> ty < 16 \<Longrightarrow> 0 \<le> tx \<Longrightarrow> tx < 16 \<Longrightarrow>
        sum_reg b1 (ty, tx) = gemm_padded a b M N K (t * 16) (by * 16 + ty) (bx * 16 + tx)"
      using that(3) by (simp add: Inv_def)
    from gemm_tile_step[OF m1 len(1,2) idx(1,2) that(1) a1, of bz] obtain b2 where
      "gemm_tile A B M N K (bx, by, bz) (16, 16, 1) t b1 = Some (Inr b2)"
      "global b2 = global b1" "syncs b2 = syncs b1 + 2"
      "\<forall>ty tx. 0 \<le> ty \<and> ty < 16 \<and> 0 \<le> tx \<and> tx < 16 \<longrightarrow>
        sum_reg b2 (ty, tx) = gemm_padded a b M N K ((t + 1) * 16) (by * 16 + ty) (bx * 16 + tx)"
      by blast
    then show ?thesis
      using that(1,3) by (intro exI[of _ b2]) (simp add: Inv_def nat_add_distrib)
  qed
  from for_loop_inv[where Inv = Inv and x = 0 and n = T and s = b0
      and body = "gemm_tile A B M N K (bx, by, bz) (16, 16, 1)", OF T(2) I0 step]
  obtain bT where rT: "for_loop 0 T (gemm_tile A B M N K (bx, by, bz) (16, 16, 1)) b0 = Some (Inr bT)"
    and IT: "Inv T bT" by blast
  have mT: "global bT C = Some c" using IT mem by (simp add: Inv_def)
  have aT: "\<And>ty tx. 0 \<le> ty \<Longrightarrow> ty < 16 \<Longrightarrow> 0 \<le> tx \<Longrightarrow> tx < 16 \<Longrightarrow>
      sum_reg bT (ty, tx) = gemm_padded a b M N K (T * 16) (by * 16 + ty) (bx * 16 + tx)"
    using IT by (simp add: Inv_def)
  from gemm_store_phase[where v = "gemm_padded a b M N K (T * 16)", OF mT len(3) idx(1,2) aT, of bz]
  obtain b' where rS: "each_thread (16, 16, 1) (gemm_store C M N (bx, by, bz)) bT = Some (Inr b')"
    and sS: "syncs b' = syncs bT"
    and gS: "global b' = (global bT)(C := Some (foldl
        (\<lambda>buf u. case gemm_cell ((bz, by, bx), u) of (row, col) \<Rightarrow>
           if row < M \<and> col < N then buf[nat (row * N + col) := gemm_padded a b M N K (T * 16) row col] else buf)
        c (triples 1 16 16)))"
    by blast
  have run: "gemm_kernel_block A B C M N K (bx, by, bz) (16, 16, 1) blk = Some (Inr b')"
    unfolding gemm_kernel_block_def T(1) r0 seq_Inr rT rS ..
  have fold: "(\<lambda>buf u. case gemm_cell ((bz, by, bx), u) of (row, col) \<Rightarrow>
           if row < M \<and> col < N then buf[nat (row * N + col) := gemm_padded a b M N K (T * 16) row col] else buf)
      = (\<lambda>buf u. gemm_thread_step a b M N K (gemm_cell ((bz, by, bx), u)) buf)"
    by (intro ext) (simp add: gemm_thread_step_def T_def split_beta)
  show ?thesis
    using run sS gS IT unfolding fold
    by (intro exI[of _ b']) (simp add: Inv_def T_def)
qed

lemma gemm_kernel_run:
  fixes a b c :: "'a::{zero,plus,times} list"
  assumes mem: "mem A = Some a" "mem B = Some b" "mem C = Some c"
    and len: "int (length a) = M * K" "int (length b) = K * N" "int (length c) = M * N"
    and idx: "0 \<le> bx" "0 \<le> by" "0 \<le> K"
  shows "gemm_kernel env A B C M N K (16, 16, 1) (bx, by, bz) mem =
     Some (Inr (mem(C := Some (foldl
        (\<lambda>buf u. gemm_thread_step a b M N K (gemm_cell ((bz, by, bx), u)) buf) c (triples 1 16 16)))))"
proof -
  define blk :: "'a gemm_block" where "blk =
      \<lparr>sA = (\<lambda>(r, c). garbage env (nat (r * TILE_K + c))),
       sB = (\<lambda>(r, c). garbage env (nat (r * TILE_N + c))),
       sum_reg = (\<lambda>_. garbage env 0), syncs = 0, global = mem\<rparr>"
  have g: "global blk = mem" by (simp add: blk_def)
  from gemm_kernel_block_run[of blk A a B b C c M K N bx "by" bz] mem len idx g
  obtain blk' where "gemm_kernel_block A B C M N K (bx, by, bz) (16, 16, 1) blk = Some (Inr blk')"
    "global blk' = mem(C := Some (foldl
        (\<lambda>buf u. gemm_thread_step a b M N K (gemm_cell ((bz, by, bx), u)) buf) c (triples 1 16 16)))"
    by auto
  then show ?thesis
    by (simp add: gemm_kernel_def seq_Inr flip: blk_def)
qed

lemma length_gemm_device_result: "length (gemm_device_result a b c0 M N K) = length c0"
  by (simp add: gemm_device_result_def length_foldl_gemm_thread_step)

lemma gemm_launch:
  fixes a b c0 :: "'a::{zero,plus,times} list"
  assumes dev: "\<not> sticky s" "device s A = Some a" "device s B = Some b" "device s C = Some c0"
      "C \<noteq> A" "C \<noteq> B"
    and len: "int (length a) = M * K" "int (length b) = K * N" "int (length c0) = M * N"
    and par: "0 \<le> K"
  shows "launch (gx, gy, 1) (16, 16, 1) (gemm_kernel env A B C M N K (16, 16, 1)) s
     = Some (Inr (s\<lparr>device := (device s)(C := Some (foldl
           (\<lambda>buf x. gemm_thread_step a b M N K (gemm_cell x) buf) c0 (conv_threads gx gy 1))),
         trace := trace s @ [Launch (gx, gy, 1) (16, 16, 1)]\<rparr>))"
proof -
  define G where "G = (\<lambda>x. gemm_thread_step a b M N K (gemm_cell x))"
  define bstep :: "'a heap \<Rightarrow> int \<times> int \<times> int \<Rightarrow> 'a heap"
    where "bstep = (\<lambda>m blkid. m(C := Some (foldl (\<lambda>buf u. G (blkid, u) buf) (the (m C)) (triples 1 16 16))))"
  define hstep :: "'a heap \<Rightarrow> (int \<times> int \<times> int) \<times> (int \<times> int \<times> int) \<Rightarrow> 'a heap"
    where "hstep = (\<lambda>m x. m(C := Some (G x (the (m C)))))"
  define P :: "'a heap \<Rightarrow> bool" where "P = (\<lambda>m. m A = Some a \<and> m B = Some b \<and>
      (\<exists>buf. m C = Some buf \<and> length buf = length c0))"
  have P0: "P (device s)" using dev by (simp add: P_def)
  have bstep_fold: "bstep m blkid = foldl hstep m (map (\<lambda>u. (blkid, u)) (triples 1 16 16))"
    if "P m" for m blkid
  proof -
    from that obtain buf where "m C = Some buf" by (auto simp: P_def)
    then have "foldl (\<lambda>m x. m(C := Some (G x (the (m C))))) m (map (\<lambda>u. (blkid, u)) (triples 1 16 16))
        = m(C := Some (foldl (\<lambda>b x. G x b) buf (map (\<lambda>u. (blkid, u)) (triples 1 16 16))))"
      by (rule foldl_heap_buffer)
    then show ?thesis
      using \<open>m C = Some buf\<close> by (simp add: bstep_def hstep_def foldl_map)
  qed
  have block: "gemm_kernel env A B C M N K (16, 16, 1) (bx, by, bz) m
        = Some (Inr (foldl hstep m (map (\<lambda>u. ((bz, by, bx), u)) (triples 1 16 16))))
        \<and> P (foldl hstep m (map (\<lambda>u. ((bz, by, bx), u)) (triples 1 16 16)))"
    if "0 \<le> bx" "0 \<le> by" "P m" for bx "by" bz m
  proof -
    from that(3) obtain buf where m: "m A = Some a" "m B = Some b" "m C = Some buf"
      and lb: "length buf = length c0" by (auto simp: P_def)
    have "gemm_kernel env A B C M N K (16, 16, 1) (bx, by, bz) m = Some (Inr (bstep m (bz, by, bx)))"
      using gemm_kernel_run[of m A a B b C buf M K N bx "by" env bz] m lb len that(1,2) par
      by (simp add: bstep_def G_def)
    moreover have "P (bstep m (bz, by, bx))"
      using m lb dev(5,6) by (simp add: P_def bstep_def G_def length_foldl_gemm_thread_step)
    ultimately show ?thesis using bstep_fold[OF that(3)] by simp
  qed
  have grid: "for_loop 0 1 (\<lambda>bz. for_loop 0 gy (\<lambda>by. for_loop 0 gx (\<lambda>bx.
        gemm_kernel env A B C M N K (16, 16, 1) (bx, by, bz)))) (device s)
      = Some (Inr (foldl hstep (device s) (conv_threads gx gy 1)))"
    using for_loop3_accum[where P = P and s = "device s" and na = 1 and nb = gy and nc = gx
        and step = "\<lambda>m b. foldl hstep m (map (\<lambda>t. (b, t)) (triples 1 16 16))"
        and body = "\<lambda>bz by bx. gemm_kernel env A B C M N K (16, 16, 1) (bx, by, bz)"]
      block P0 by (simp add: foldl_nest conv_threads_def)
  have "foldl hstep (device s) (conv_threads gx gy 1)
      = (device s)(C := Some (foldl (\<lambda>b x. G x b) c0 (conv_threads gx gy 1)))"
    unfolding hstep_def using dev(4) by (rule foldl_heap_buffer)
  with grid show ?thesis
    using dev(1) by (simp add: launch_def G_def)
qed

lemma gemm_device_result_nth:
  fixes a b c0 :: "'a::{zero,plus,times} list"
  assumes "0 \<le> row" "row < M" "0 \<le> col" "col < N"
    and "int (length c0) = M * N"
  shows "gemm_device_result a b c0 M N K ! nat (row * N + col)
     = gemm_padded a b M N K ((K + 16 - 1) div 16 * 16) row col"
proof -
  define ts where "ts = conv_threads ((N + 16 - 1) div 16) ((M + 16 - 1) div 16) 1"
  define c where "c = (\<lambda>x. case gemm_cell x of (r, cl) \<Rightarrow> r < M \<and> cl < N)"
  define f where "f = (\<lambda>x. case gemm_cell x of (r, cl) \<Rightarrow> nat (r * N + cl))"
  define g where "g = (\<lambda>x. case gemm_cell x of (r, cl) \<Rightarrow> gemm_padded a b M N K ((K + 16 - 1) div 16 * 16) r cl)"
  define p where "p = nat (row * N + col)"
  have step: "(\<lambda>buf x. gemm_thread_step a b M N K (gemm_cell x) buf)
      = (\<lambda>xs t. if c t then xs[f t := g t] else xs)"
    by (intro ext) (simp add: gemm_thread_step_def c_def f_def g_def split_beta)
  have bnd: "0 \<le> row * N + col \<and> row * N + col < M * N"
    using assms by (intro idx2_bound) auto
  have plt: "p < length c0" using bnd assms(5) by (simp add: p_def nat_less_iff)
  have same: "g t = gemm_padded a b M N K ((K + 16 - 1) div 16 * 16) row col"
    if "t \<in> set ts" "c t" "f t = p" for t
  proof -
    obtain bz "by" bx tz ty tx where t: "t = ((bz, by, bx), (tz, ty, tx))"
      by (metis prod.collapse)
    define r cl where "r = by * 16 + ty" and "cl = bx * 16 + tx"
    have nn: "0 \<le> r" "0 \<le> cl"
      using that(1) by (auto simp: t ts_def set_conv_threads r_def cl_def)
    have rng: "r < M" "cl < N"
      using that(2) by (auto simp: t c_def gemm_cell_def r_def cl_def)
    have "0 \<le> r * N + cl"
      using nn rng by (intro add_nonneg_nonneg mult_nonneg_nonneg) auto
    then have "r * N + cl = row * N + col"
      using that(3) bnd by (simp add: t f_def p_def gemm_cell_def eq_nat_nat_iff r_def cl_def)
    then have "r = row \<and> cl = col"
      using nn rng assms by (intro idx2_inj[where m = N]) auto
    then show ?thesis by (auto simp: t g_def gemm_cell_def r_def cl_def)
  qed
  have ex: "\<exists>t \<in> set ts. c t \<and> f t = p"
  proof -
    define t where "t = ((0::int, row div 16, col div 16), (0::int, row mod 16, col mod 16))"
    have "row div 16 < (M + 16 - 1) div 16" "col div 16 < (N + 16 - 1) div 16"
      "0 \<le> row div 16" "0 \<le> col div 16"
      using assms by auto
    then have "t \<in> set ts"
      by (simp add: t_def ts_def set_conv_threads)
    moreover have "gemm_cell t = (row, col)"
      by (simp add: t_def gemm_cell_def)
    ultimately show ?thesis
      using assms by (intro bexI[of _ t]) (auto simp: c_def f_def p_def)
  qed
  show ?thesis
    unfolding gemm_device_result_def step ts_def[symmetric] p_def[symmetric]
    using same ex plt by (rule foldl_cond_update_nth)
qed




lemma seq_returns:
  assumes "seq m f = Some (Inr r)"
  obtains x where "m = Some (Inr x)" "f x = Some (Inr r)"
  using assms by (auto simp: seq_def split: option.splits sum.splits)

lemma CHECK_CUDA_returns:
  assumes "CHECK_CUDA call cont = Some (Inr r)"
  obtains x where "call = Some (Inr (cudaSuccess, x))" "cont x = Some (Inr r)"
  using assms by (auto simp: CHECK_CUDA_def seq_def split: option.splits sum.splits if_splits)

lemma api_result_success: "api_result env site valid s = cudaSuccess \<Longrightarrow> api_status env site = cudaSuccess"
  by (auto simp: api_result_def split: if_splits)

lemma cudaMalloc_returns:
  assumes "cudaMalloc env site n s = Some (Inr (e, p, s'))"
  shows "host s' = host s \<and> (e = cudaSuccess \<longrightarrow> api_status env site = cudaSuccess)"
  using assms api_result_success[of env site "0 \<le> n" s]
  by (auto simp: cudaMalloc_def Let_def split: if_splits)

lemma cudaMemcpyHostToDevice_returns:
  assumes "cudaMemcpyHostToDevice env site dst src n s = Some (Inr (e, s'))"
  shows "host s' = host s \<and> (e = cudaSuccess \<longrightarrow> api_status env site = cudaSuccess)"
  using assms api_result_success[of env site _ s]
  by (auto simp: cudaMemcpyHostToDevice_def Let_def split: if_splits option.splits)

lemma cudaDeviceSynchronize_returns:
  assumes "cudaDeviceSynchronize env site s = Some (Inr (e, s'))"
  shows "host s' = host s \<and> (e = cudaSuccess \<longrightarrow> api_status env site = cudaSuccess)"
  using assms api_result_success[of env site True s]
  by (auto simp: cudaDeviceSynchronize_def Let_def split: if_splits)

lemma cudaFree_returns:
  assumes "cudaFree env site p s = Some (Inr (e, s'))"
  shows "host s' = host s \<and> (e = cudaSuccess \<longrightarrow> api_status env site = cudaSuccess)"
  using assms api_result_success[of env site _ s]
  by (auto simp: cudaFree_def Let_def split: if_splits)

lemma launch_returns:
  assumes "launch grid block kernel_block s = Some (Inr s')"
  shows "host s' = host s"
  using assms by (auto simp: launch_def split: if_splits prod.splits option.splits sum.splits)

lemma gemm_device_returns:
  assumes "gemm_device env A B M N K s = Some (Inr (dA, dB, dC, s'))"
  shows "host s' = host s \<and> (\<forall>site < 6. api_status env site = cudaSuccess)"
proof -
  from assms[unfolded gemm_device_def Let_def]
  obtain x1 where c1: "cudaMalloc env 0 (M * K) s = Some (Inr (cudaSuccess, x1))"
    and k1: "(case x1 of (dA, s) \<Rightarrow>
         CHECK_CUDA (cudaMalloc env 1 (K * N) s) (\<lambda>(dB, s).
         CHECK_CUDA (cudaMalloc env 2 (M * N) s) (\<lambda>(dC, s).
         CHECK_CUDA (cudaMemcpyHostToDevice env 3 dA A (M * K) s) (\<lambda>s.
         CHECK_CUDA (cudaMemcpyHostToDevice env 4 dB B (K * N) s) (\<lambda>s.
         seq (launch ((N + TILE_N - 1) sdiv TILE_N, (M + TILE_M - 1) sdiv TILE_M, 1) (TILE_N, TILE_M, 1)
                (gemm_kernel env dA dB dC M N K (TILE_N, TILE_M, 1)) s) (\<lambda>s.
         CHECK_CUDA (cudaDeviceSynchronize env 5 s) (\<lambda>s.
         Some (Inr (dA, dB, dC, s))))))))) = Some (Inr (dA, dB, dC, s'))"
    by (rule CHECK_CUDA_returns)
  obtain p1 s1 where x1: "x1 = (p1, s1)" by (cases x1)
  from k1[unfolded x1 prod.case]
  obtain x2 where c2: "cudaMalloc env 1 (K * N) s1 = Some (Inr (cudaSuccess, x2))"
    and k2: "(case x2 of (dB, s) \<Rightarrow>
         CHECK_CUDA (cudaMalloc env 2 (M * N) s) (\<lambda>(dC, s).
         CHECK_CUDA (cudaMemcpyHostToDevice env 3 p1 A (M * K) s) (\<lambda>s.
         CHECK_CUDA (cudaMemcpyHostToDevice env 4 dB B (K * N) s) (\<lambda>s.
         seq (launch ((N + TILE_N - 1) sdiv TILE_N, (M + TILE_M - 1) sdiv TILE_M, 1) (TILE_N, TILE_M, 1)
                (gemm_kernel env p1 dB dC M N K (TILE_N, TILE_M, 1)) s) (\<lambda>s.
         CHECK_CUDA (cudaDeviceSynchronize env 5 s) (\<lambda>s.
         Some (Inr (p1, dB, dC, s)))))))) = Some (Inr (dA, dB, dC, s'))"
    by (rule CHECK_CUDA_returns)
  obtain p2 s2 where x2: "x2 = (p2, s2)" by (cases x2)
  from k2[unfolded x2 prod.case]
  obtain x3 where c3: "cudaMalloc env 2 (M * N) s2 = Some (Inr (cudaSuccess, x3))"
    and k3: "(case x3 of (dC, s) \<Rightarrow>
         CHECK_CUDA (cudaMemcpyHostToDevice env 3 p1 A (M * K) s) (\<lambda>s.
         CHECK_CUDA (cudaMemcpyHostToDevice env 4 p2 B (K * N) s) (\<lambda>s.
         seq (launch ((N + TILE_N - 1) sdiv TILE_N, (M + TILE_M - 1) sdiv TILE_M, 1) (TILE_N, TILE_M, 1)
                (gemm_kernel env p1 p2 dC M N K (TILE_N, TILE_M, 1)) s) (\<lambda>s.
         CHECK_CUDA (cudaDeviceSynchronize env 5 s) (\<lambda>s.
         Some (Inr (p1, p2, dC, s))))))) = Some (Inr (dA, dB, dC, s'))"
    by (rule CHECK_CUDA_returns)
  obtain p3 s3 where x3: "x3 = (p3, s3)" by (cases x3)
  from k3[unfolded x3 prod.case]
  obtain s4 where c4: "cudaMemcpyHostToDevice env 3 p1 A (M * K) s3 = Some (Inr (cudaSuccess, s4))"
    and k4: "CHECK_CUDA (cudaMemcpyHostToDevice env 4 p2 B (K * N) s4) (\<lambda>s.
         seq (launch ((N + TILE_N - 1) sdiv TILE_N, (M + TILE_M - 1) sdiv TILE_M, 1) (TILE_N, TILE_M, 1)
                (gemm_kernel env p1 p2 p3 M N K (TILE_N, TILE_M, 1)) s) (\<lambda>s.
         CHECK_CUDA (cudaDeviceSynchronize env 5 s) (\<lambda>s.
         Some (Inr (p1, p2, p3, s))))) = Some (Inr (dA, dB, dC, s'))"
    by (rule CHECK_CUDA_returns)
  from k4
  obtain s5 where c5: "cudaMemcpyHostToDevice env 4 p2 B (K * N) s4 = Some (Inr (cudaSuccess, s5))"
    and k5: "seq (launch ((N + TILE_N - 1) sdiv TILE_N, (M + TILE_M - 1) sdiv TILE_M, 1) (TILE_N, TILE_M, 1)
                (gemm_kernel env p1 p2 p3 M N K (TILE_N, TILE_M, 1)) s5) (\<lambda>s.
         CHECK_CUDA (cudaDeviceSynchronize env 5 s) (\<lambda>s.
         Some (Inr (p1, p2, p3, s)))) = Some (Inr (dA, dB, dC, s'))"
    by (rule CHECK_CUDA_returns)
  from k5
  obtain s6 where c6: "launch ((N + TILE_N - 1) sdiv TILE_N, (M + TILE_M - 1) sdiv TILE_M, 1) (TILE_N, TILE_M, 1)
                (gemm_kernel env p1 p2 p3 M N K (TILE_N, TILE_M, 1)) s5 = Some (Inr s6)"
    and k6: "CHECK_CUDA (cudaDeviceSynchronize env 5 s6) (\<lambda>s.
         Some (Inr (p1, p2, p3, s))) = Some (Inr (dA, dB, dC, s'))"
    by (rule seq_returns)
  from k6
  obtain s7 where c7: "cudaDeviceSynchronize env 5 s6 = Some (Inr (cudaSuccess, s7))"
    and k7: "Some (Inr (p1, p2, p3, s7)) = Some (Inr (dA, dB, dC, s'))"
    by (rule CHECK_CUDA_returns) blast
  have h: "host s7 = host s"
    using cudaMalloc_returns[OF c1[unfolded x1]] cudaMalloc_returns[OF c2[unfolded x2]]
      cudaMalloc_returns[OF c3[unfolded x3]] cudaMemcpyHostToDevice_returns[OF c4]
      cudaMemcpyHostToDevice_returns[OF c5] launch_returns[OF c6] cudaDeviceSynchronize_returns[OF c7]
    by simp
  have st: "api_status env 0 = cudaSuccess" "api_status env 1 = cudaSuccess" "api_status env 2 = cudaSuccess"
      "api_status env 3 = cudaSuccess" "api_status env 4 = cudaSuccess" "api_status env 5 = cudaSuccess"
    using cudaMalloc_returns[OF c1[unfolded x1]] cudaMalloc_returns[OF c2[unfolded x2]]
      cudaMalloc_returns[OF c3[unfolded x3]] cudaMemcpyHostToDevice_returns[OF c4]
      cudaMemcpyHostToDevice_returns[OF c5] cudaDeviceSynchronize_returns[OF c7]
    by simp_all
  have "api_status env site = cudaSuccess" if "site < 6" for site
  proof -
    from that have "site = 0 \<or> site = 1 \<or> site = 2 \<or> site = 3 \<or> site = 4 \<or> site = 5" by arith
    then show ?thesis using st by auto
  qed
  then show ?thesis using h k7 by simp
qed

lemma gemm_kernel_test_returns:
  assumes "gemm_kernel_test env A B C M N K s = Some (Inr s')"
  shows "host s' = host s \<and> (\<forall>site < 9. api_status env site = cudaSuccess)"
proof -
  from assms[unfolded gemm_kernel_test_def]
  obtain x where d: "gemm_device env A B M N K s = Some (Inr x)"
    and k0: "(case x of (dA, dB, dC, s) \<Rightarrow>
       CHECK_CUDA (cudaFree env 6 dA s) (\<lambda>s.
       CHECK_CUDA (cudaFree env 7 dB s) (\<lambda>s.
       CHECK_CUDA (cudaFree env 8 dC s) (\<lambda>s.
       Some (Inr s))))) = Some (Inr s')"
    by (rule seq_returns)
  obtain dA dB dC s7 where x: "x = (dA, dB, dC, s7)" by (cases x)
  from k0[unfolded x prod.case]
  obtain s8 where c8: "cudaFree env 6 dA s7 = Some (Inr (cudaSuccess, s8))"
    and k8: "CHECK_CUDA (cudaFree env 7 dB s8) (\<lambda>s.
       CHECK_CUDA (cudaFree env 8 dC s) (\<lambda>s. Some (Inr s))) = Some (Inr s')"
    by (rule CHECK_CUDA_returns)
  from k8
  obtain s9 where c9: "cudaFree env 7 dB s8 = Some (Inr (cudaSuccess, s9))"
    and k9: "CHECK_CUDA (cudaFree env 8 dC s9) (\<lambda>s. Some (Inr s)) = Some (Inr s')"
    by (rule CHECK_CUDA_returns)
  from k9
  obtain s10 where c10: "cudaFree env 8 dC s9 = Some (Inr (cudaSuccess, s10))"
    and k10: "Some (Inr s10) = Some (Inr s')"
    by (rule CHECK_CUDA_returns) blast
  have dev: "host s7 = host s" "\<forall>site < 6. api_status env site = cudaSuccess"
    using gemm_device_returns[OF d[unfolded x]] by simp_all
  have h: "host s10 = host s"
    using dev(1) cudaFree_returns[OF c8] cudaFree_returns[OF c9] cudaFree_returns[OF c10] by simp
  have st: "api_status env 6 = cudaSuccess" "api_status env 7 = cudaSuccess" "api_status env 8 = cudaSuccess"
    using cudaFree_returns[OF c8] cudaFree_returns[OF c9] cudaFree_returns[OF c10] by simp_all
  have "api_status env site = cudaSuccess" if "site < 9" for site
  proof -
    from that have "site < 6 \<or> site = 6 \<or> site = 7 \<or> site = 8" by arith
    then show ?thesis using st dev(2) by auto
  qed
  then show ?thesis using h k10 by simp
qed






































lemma gemm_device_run:
  fixes ha hb :: "'a::{zero,plus,times} list"
  assumes par: "0 \<le> M" "0 \<le> N" "0 \<le> K"
    and hst: "host s A = Some ha" "host s B = Some hb"
    and len: "int (length ha) = M * K" "int (length hb) = K * N"
    and env: "\<And>site. api_status env site = cudaSuccess"
    and ns: "\<not> sticky s"
  shows "\<exists>s'. gemm_device env A B M N K s = Some (Inr (brk s, brk s + 1, brk s + 2, s')) \<and>
     host s' = host s \<and> \<not> sticky s' \<and>
     device s' = (device s)(brk s := Some ha, brk s + 1 := Some hb,
        brk s + 2 := Some (gemm_device_result ha hb (map (garbage env) [0..<nat (M * N)]) M N K)) \<and>
     trace s' = trace s @ [Api CudaMalloc cudaSuccess, Api CudaMalloc cudaSuccess, Api CudaMalloc cudaSuccess,
       Api CudaMemcpy cudaSuccess, Api CudaMemcpy cudaSuccess,
       Launch ((N + 16 - 1) div 16, (M + 16 - 1) div 16, 1) (16, 16, 1),
       Api CudaDeviceSynchronize cudaSuccess]"
proof -
  define n1 where "n1 = M * K"
  define n2 where "n2 = K * N"
  define n3 where "n3 = M * N"
  define b where "b = brk s"
  define g1 where "g1 = map (garbage env) [0..<nat n1]"
  define g2 where "g2 = map (garbage env) [0..<nat n2]"
  define g3 where "g3 = map (garbage env) [0..<nat n3]"
  define gx gy where "gx = (N + 16 - 1) div 16" and "gy = (M + 16 - 1) div 16"
  define res where "res = gemm_device_result ha hb g3 M N K"
  have nn: "0 \<le> n1" "0 \<le> n2" "0 \<le> n3"
    using par by (auto simp: n1_def n2_def n3_def)
  have g: "(N + TILE_N - 1) sdiv TILE_N = gx" "(M + TILE_M - 1) sdiv TILE_M = gy"
    using par by (simp_all add: gx_def gy_def TILE_N_def TILE_M_def sdiv_nonneg)
  define s1 where "s1 = s\<lparr>device := (device s)(b := Some g1), brk := b + 1,
      trace := trace s @ [Api CudaMalloc cudaSuccess]\<rparr>"
  have f1: "host s1 = host s" "device s1 = (device s)(b := Some g1)" "brk s1 = b + 1" "\<not> sticky s1"
      "trace s1 = trace s @ [Api CudaMalloc cudaSuccess]"
    using ns by (simp_all add: s1_def)
  have c1: "cudaMalloc env 0 n1 s = Some (Inr (cudaSuccess, b, s1))"
    using env ns nn by (simp add: cudaMalloc_ok s1_def b_def g1_def)
  define s2 where "s2 = s1\<lparr>device := (device s1)(b + 1 := Some g2), brk := b + 1 + 1,
      trace := trace s1 @ [Api CudaMalloc cudaSuccess]\<rparr>"
  have f2: "host s2 = host s" "device s2 = (device s)(b := Some g1, b + 1 := Some g2)" "brk s2 = b + 2" "\<not> sticky s2"
      "trace s2 = trace s @ [Api CudaMalloc cudaSuccess, Api CudaMalloc cudaSuccess]"
    using f1 by (simp_all add: s2_def)
  have c2: "cudaMalloc env 1 n2 s1 = Some (Inr (cudaSuccess, b + 1, s2))"
    using env f1 nn cudaMalloc_ok[of env 1 s1 n2] by (simp add: s2_def g2_def)
  define s3 where "s3 = s2\<lparr>device := (device s2)(b + 2 := Some g3), brk := b + 2 + 1,
      trace := trace s2 @ [Api CudaMalloc cudaSuccess]\<rparr>"
  have f3: "host s3 = host s" "device s3 = (device s)(b := Some g1, b + 1 := Some g2, b + 2 := Some g3)" "\<not> sticky s3"
      "trace s3 = trace s @ [Api CudaMalloc cudaSuccess, Api CudaMalloc cudaSuccess, Api CudaMalloc cudaSuccess]"
    using f2 by (simp_all add: s3_def)
  have c3: "cudaMalloc env 2 n3 s2 = Some (Inr (cudaSuccess, b + 2, s3))"
    using env f2 nn cudaMalloc_ok[of env 2 s2 n3] by (simp add: s3_def g3_def)
  define s4 where "s4 = s3\<lparr>trace := trace s3 @ [Api CudaMemcpy cudaSuccess],
      device := (device s3)(b := Some (take (nat n1) ha @ drop (nat n1) g1))\<rparr>"
  have f4: "host s4 = host s" "device s4 = (device s)(b := Some ha, b + 1 := Some g2, b + 2 := Some g3)" "\<not> sticky s4"
      "trace s4 = trace s @ [Api CudaMalloc cudaSuccess, Api CudaMalloc cudaSuccess, Api CudaMalloc cudaSuccess,
         Api CudaMemcpy cudaSuccess]"
    using f3 len nn by (auto simp: s4_def n1_def g1_def fun_upd_twist)
  have c4: "cudaMemcpyHostToDevice env 3 b A n1 s3 = Some (Inr (cudaSuccess, s4))"
    unfolding s4_def using env f3 nn len hst
    by (intro cudaMemcpyHostToDevice_ok) (auto simp: g1_def n1_def)
  define s5 where "s5 = s4\<lparr>trace := trace s4 @ [Api CudaMemcpy cudaSuccess],
      device := (device s4)(b + 1 := Some (take (nat n2) hb @ drop (nat n2) g2))\<rparr>"
  have f5: "host s5 = host s" "device s5 = (device s)(b := Some ha, b + 1 := Some hb, b + 2 := Some g3)" "\<not> sticky s5"
      "trace s5 = trace s @ [Api CudaMalloc cudaSuccess, Api CudaMalloc cudaSuccess, Api CudaMalloc cudaSuccess,
         Api CudaMemcpy cudaSuccess, Api CudaMemcpy cudaSuccess]"
    using f4 len nn by (auto simp: s5_def n2_def g2_def fun_upd_twist)
  have c5: "cudaMemcpyHostToDevice env 4 (b + 1) B n2 s4 = Some (Inr (cudaSuccess, s5))"
    unfolding s5_def using env f4 nn len hst
    by (intro cudaMemcpyHostToDevice_ok) (auto simp: g2_def n2_def)
  define s6 where "s6 = s5\<lparr>device := (device s5)(b + 2 := Some res), trace := trace s5 @ [Launch (gx, gy, 1) (16, 16, 1)]\<rparr>"
  have f6: "host s6 = host s" "device s6 = (device s)(b := Some ha, b + 1 := Some hb, b + 2 := Some res)" "\<not> sticky s6"
      "trace s6 = trace s @ [Api CudaMalloc cudaSuccess, Api CudaMalloc cudaSuccess, Api CudaMalloc cudaSuccess,
         Api CudaMemcpy cudaSuccess, Api CudaMemcpy cudaSuccess, Launch (gx, gy, 1) (16, 16, 1)]"
    using f5 by (simp_all add: s6_def)
  have "launch (gx, gy, 1) (16, 16, 1) (gemm_kernel env b (b + 1) (b + 2) M N K (16, 16, 1)) s5 = Some (Inr s6)"
    unfolding s6_def res_def gemm_device_result_def gx_def[symmetric] gy_def[symmetric]
    using f5 len par by (intro gemm_launch) (auto simp: g3_def n3_def)
  then have c6: "launch ((N + TILE_N - 1) sdiv TILE_N, (M + TILE_M - 1) sdiv TILE_M, 1) (TILE_N, TILE_M, 1)
        (gemm_kernel env b (b + 1) (b + 2) M N K (TILE_N, TILE_M, 1)) s5 = Some (Inr s6)"
    unfolding g by (simp add: TILE_N_def TILE_M_def)
  define s7 where "s7 = s6\<lparr>trace := trace s6 @ [Api CudaDeviceSynchronize cudaSuccess]\<rparr>"
  have f7: "host s7 = host s" "device s7 = device s6" "\<not> sticky s7"
      "trace s7 = trace s6 @ [Api CudaDeviceSynchronize cudaSuccess]"
    using f6 by (simp_all add: s7_def)
  have c7: "cudaDeviceSynchronize env 5 s6 = Some (Inr (cudaSuccess, s7))"
    unfolding s7_def using env f6 by (intro cudaDeviceSynchronize_ok) auto
  have ck: "CHECK_CUDA (Some (Inr (cudaSuccess, x))) cont = cont x" for x :: 'x and cont :: "'x \<Rightarrow> 'y result"
    by (simp add: CHECK_CUDA_def seq_def)
  have run: "gemm_device env A B M N K s = Some (Inr (b, b + 1, b + 2, s7))"
    unfolding gemm_device_def Let_def
    unfolding n1_def[symmetric] n2_def[symmetric] n3_def[symmetric]
    by (simp only: ck seq_Inr prod.case c1 c2 c3 c4 c5 c6 c7)
  show ?thesis
    using run f7 f6 by (intro exI[of _ s7]) (simp add: b_def res_def g3_def n3_def gx_def gy_def)
qed

lemma gemm_kernel_test_run:
  fixes ha hb :: "'a::{zero,plus,times} list"
  assumes par: "0 \<le> M" "0 \<le> N" "0 \<le> K"
    and hst: "host s A = Some ha" "host s B = Some hb"
    and len: "int (length ha) = M * K" "int (length hb) = K * N"
    and env: "\<And>site. api_status env site = cudaSuccess"
    and ns: "\<not> sticky s"
  shows "\<exists>s'. gemm_kernel_test env A B C M N K s = Some (Inr s') \<and> host s' = host s \<and>
     device s' = (device s)(brk s := None, brk s + 1 := None, brk s + 2 := None)"
proof -
  define b where "b = brk s"
  from gemm_device_run[OF par hst len env ns] obtain s7 where
    d: "gemm_device env A B M N K s = Some (Inr (b, b + 1, b + 2, s7))"
    and f7: "host s7 = host s" "\<not> sticky s7"
      "device s7 = (device s)(b := Some ha, b + 1 := Some hb,
        b + 2 := Some (gemm_device_result ha hb (map (garbage env) [0..<nat (M * N)]) M N K))"
    unfolding b_def by blast
  define s8 where "s8 = s7\<lparr>trace := trace s7 @ [Api CudaFree cudaSuccess], device := (device s7)(b := None)\<rparr>"
  have f8: "host s8 = host s" "device s8 = (device s7)(b := None)" "\<not> sticky s8"
    using f7 by (simp_all add: s8_def)
  have c8: "cudaFree env 6 b s7 = Some (Inr (cudaSuccess, s8))"
    unfolding s8_def using env f7 by (intro cudaFree_ok[where d = ha]) auto
  define s9 where "s9 = s8\<lparr>trace := trace s8 @ [Api CudaFree cudaSuccess], device := (device s8)(b + 1 := None)\<rparr>"
  have f9: "host s9 = host s" "device s9 = (device s8)(b + 1 := None)" "\<not> sticky s9"
    using f8 by (simp_all add: s9_def)
  have c9: "cudaFree env 7 (b + 1) s8 = Some (Inr (cudaSuccess, s9))"
    unfolding s9_def using env f8 f7 by (intro cudaFree_ok[where d = hb]) auto
  define s10 where "s10 = s9\<lparr>trace := trace s9 @ [Api CudaFree cudaSuccess], device := (device s9)(b + 2 := None)\<rparr>"
  have f10: "host s10 = host s" "device s10 = (device s9)(b + 2 := None)"
    using f9 by (simp_all add: s10_def)
  have c10: "cudaFree env 8 (b + 2) s9 = Some (Inr (cudaSuccess, s10))"
    unfolding s10_def using env f9 f8 f7
    by (intro cudaFree_ok[where d = "gemm_device_result ha hb (map (garbage env) [0..<nat (M * N)]) M N K"]) auto
  have ck: "CHECK_CUDA (Some (Inr (cudaSuccess, x))) cont = cont x" for x :: 'x and cont :: "'x \<Rightarrow> 'y result"
    by (simp add: CHECK_CUDA_def seq_def)
  have run: "gemm_kernel_test env A B C M N K s = Some (Inr s10)"
    unfolding gemm_kernel_test_def
    by (simp only: d ck seq_Inr prod.case c8 c9 c10)
  have "device s10 = (device s)(b := None, b + 1 := None, b + 2 := None)"
    using f10 f9 f8 f7 by (auto simp: fun_eq_iff)
  then show ?thesis
    using run f10 by (intro exI[of _ s10]) (simp add: b_def)
qed







lemma replicate_fill_step:
  assumes "i < length buf"
  shows "(replicate i v @ drop i buf)[i := v] = replicate (Suc i) v @ drop (Suc i) buf"
proof -
  have "drop i buf = buf ! i # drop (Suc i) buf"
    using assms by (simp add: Cons_nth_drop_Suc)
  then show ?thesis
    by (simp add: list_update_append replicate_append_same)
qed

lemma fill_run:
  assumes "host s p = Some buf" "int (length buf) = n"
  shows "fill p n v s = Some (Inr (s\<lparr>host := (host s)(p := Some (replicate (nat n) v))\<rparr>))"
proof -
  define g where "g = (\<lambda>i :: int. s\<lparr>host := (host s)(p := Some (replicate (nat i) v @ drop (nat i) buf))\<rparr>)"
  have g0: "g 0 = s" using assms(1) by (simp add: g_def fun_upd_idem)
  have gn: "g n = s\<lparr>host := (host s)(p := Some (replicate (nat n) v))\<rparr>"
    using assms(2) by (simp add: g_def)
  have step: "seq (dstore (host (g i)) p i v) (\<lambda>h. Some (Inr ((g i)\<lparr>host := h\<rparr>))) = Some (Inr (g (i + 1)))"
    if "0 \<le> i" "i < n" for i
  proof -
    have l: "nat i < length buf" using that assms(2) by auto
    have "(replicate (nat i) v @ drop (nat i) buf)[nat i := v] = replicate (Suc (nat i)) v @ drop (Suc (nat i)) buf"
      using l by (rule replicate_fill_step)
    moreover have "nat (i + 1) = Suc (nat i)" using that by simp
    ultimately show ?thesis
      using that l assms(2) by (simp add: g_def dstore_def store_def seq_def)
  qed
  have "0 \<le> n" using assms(2) by auto
  from for_loop_closed[where g = g and x = 0 and n = n
      and body = "\<lambda>i s. seq (dstore (host s) p i v) (\<lambda>h. Some (Inr (s\<lparr>host := h\<rparr>)))", OF this step]
  show ?thesis by (simp add: fill_def g0 gn)
qed

lemma gemm_main_init_run:
  fixes s :: "'a::{zero,one,plus,times} cuda_state"
  shows "\<exists>s'. gemm_main_init env s = Some (Inr (brk s, brk s + 1, brk s + 2, 64, 64, 64, s')) \<and>
     host s' = (host s)(brk s := Some (replicate 4096 1), brk s + 1 := Some (replicate 4096 1),
                        brk s + 2 := Some (replicate 4096 0)) \<and>
     device s' = device s \<and> sticky s' = sticky s \<and> trace s' = trace s \<and> brk s' = brk s + 3"
proof -
  define b where "b = brk s"
  define g where "g = map (garbage env) [0..<4096]"
  define s1 where "s1 = s\<lparr>host := (host s)(b := Some g), brk := b + 1\<rparr>"
  define s2 where "s2 = s1\<lparr>host := (host s1)(b + 1 := Some g), brk := b + 1 + 1\<rparr>"
  define s3 where "s3 = s2\<lparr>host := (host s2)(b + 2 := Some g), brk := b + 2 + 1\<rparr>"
  have m1: "malloc env (64 * 64) s = (b, s1)" by (simp add: malloc_def s1_def b_def g_def Let_def)
  have m2: "malloc env (64 * 64) s1 = (b + 1, s2)" by (simp add: malloc_def s2_def s1_def g_def Let_def)
  have m3: "malloc env (64 * 64) s2 = (b + 2, s3)" by (simp add: malloc_def s3_def s2_def s1_def g_def Let_def)
  have h3: "host s3 = (host s)(b := Some g, b + 1 := Some g, b + 2 := Some g)"
    by (simp add: s3_def s2_def s1_def)
  define s4 where "s4 = s3\<lparr>host := (host s3)(b := Some (replicate (nat (64 * 64)) 1))\<rparr>"
  have f4: "fill b (64 * 64) 1 s3 = Some (Inr s4)"
    unfolding s4_def by (rule fill_run[where buf = g]) (simp_all add: h3 g_def)
  define s5 where "s5 = s4\<lparr>host := (host s4)(b + 1 := Some (replicate (nat (64 * 64)) 1))\<rparr>"
  have f5: "fill (b + 1) (64 * 64) 1 s4 = Some (Inr s5)"
    unfolding s5_def by (rule fill_run[where buf = g]) (simp_all add: s4_def h3 g_def)
  define s6 where "s6 = s5\<lparr>host := (host s5)(b + 2 := Some (replicate (nat (64 * 64)) 0))\<rparr>"
  have f6: "fill (b + 2) (64 * 64) 0 s5 = Some (Inr s6)"
    unfolding s6_def by (rule fill_run[where buf = g]) (simp_all add: s5_def s4_def h3 g_def)
  have run: "gemm_main_init env s = Some (Inr (b, b + 1, b + 2, 64, 64, 64, s6))"
    unfolding gemm_main_init_def Let_def
    by (simp only: m1 m2 m3 prod.case f4 f5 f6 seq_Inr)
  have "host s6 = (host s)(b := Some (replicate 4096 1), b + 1 := Some (replicate 4096 1),
                        b + 2 := Some (replicate 4096 0))"
    by (auto simp: s6_def s5_def s4_def h3 fun_eq_iff)
  moreover have "device s6 = device s" "sticky s6 = sticky s" "trace s6 = trace s" "brk s6 = b + 3"
    by (simp_all add: s6_def s5_def s4_def s3_def s2_def s1_def)
  ultimately show ?thesis
    using run by (intro exI[of _ s6]) (simp add: b_def)
qed

lemma conv_main_gem5_run:
  fixes s :: "'a::{zero,one,plus,times} cuda_state"
  shows "\<exists>s'. conv_main_gem5 env tenth s = Some (Inr (0, s')) \<and> trace s' = trace s \<and> device s' = device s
     \<and> sticky s' = sticky s"
proof -
  define b where "b = brk s"
  define g1 where "g1 = map (garbage env) [0..<nat (7 * 56 * 32)]"
  define g2 where "g2 = map (garbage env) [0..<nat (3 * 3 * 32 * 8)]"
  define g3 where "g3 = map (garbage env) [0..<nat ((7 - 3 + 1) * (56 - 3 + 1) * 8)]"
  define s1 where "s1 = s\<lparr>host := (host s)(b := Some g1), brk := b + 1\<rparr>"
  define s2 where "s2 = s1\<lparr>host := (host s1)(b + 1 := Some g2), brk := b + 1 + 1\<rparr>"
  define s3 where "s3 = s2\<lparr>host := (host s2)(b + 2 := Some g3), brk := b + 2 + 1\<rparr>"
  have m1: "malloc env (7 * 56 * 32) s = (b, s1)" by (simp add: malloc_def s1_def b_def g1_def Let_def)
  have m2: "malloc env (3 * 3 * 32 * 8) s1 = (b + 1, s2)" by (simp add: malloc_def s2_def s1_def g2_def Let_def)
  have m3: "malloc env ((7 - 3 + 1) * (56 - 3 + 1) * 8) s2 = (b + 2, s3)"
    by (simp add: malloc_def s3_def s2_def s1_def g3_def Let_def)
  have h3: "host s3 = (host s)(b := Some g1, b + 1 := Some g2, b + 2 := Some g3)"
    by (simp add: s3_def s2_def s1_def)
  define inp where "inp = replicate (nat (7 * 56 * 32)) (1 :: 'a)"
  define wt where "wt = replicate (nat (3 * 3 * 32 * 8)) tenth"
  define s4 where "s4 = s3\<lparr>host := (host s3)(b := Some inp)\<rparr>"
  have f4: "fill b (7 * 56 * 32) 1 s3 = Some (Inr s4)"
    unfolding s4_def inp_def by (rule fill_run[where buf = g1]) (simp_all add: h3 g1_def)
  define s5 where "s5 = s4\<lparr>host := (host s4)(b + 1 := Some wt)\<rparr>"
  have f5: "fill (b + 1) (3 * 3 * 32 * 8) tenth s4 = Some (Inr s5)"
    unfolding s5_def wt_def by (rule fill_run[where buf = g2]) (simp_all add: s4_def h3 g2_def)
  have h5: "host s5 b = Some inp" "host s5 (b + 1) = Some wt" "host s5 (b + 2) = Some g3"
    by (simp_all add: s5_def s4_def h3)
  obtain out' l where c: "conv2d inp wt g3 7 56 3 3 32 8 = Some (Inr (out', l))"
    using conv2d_run[of 3 7 3 56 32 8 inp wt g3] by (auto simp: inp_def wt_def g3_def)
  define s6 where "s6 = s5\<lparr>host := (host s5)(b + 2 := Some out')\<rparr>"
  have f6: "conv2d_call b (b + 1) (b + 2) 7 56 3 3 32 8 s5 = Some (Inr s6)"
    unfolding conv2d_call_def h5 option.case c seq_Inr prod.case s6_def ..
  define s7 where "s7 = free (b + 2) (free (b + 1) (free b s6))"
  have run: "conv_main_gem5 env tenth s = Some (Inr (0, s7))"
    unfolding conv_main_gem5_def Let_def m5_reset_stats_def m5_dump_stats_def
    by (simp only: m1 m2 m3 prod.case f4 f5 f6 seq_Inr s7_def)
  have "trace s7 = trace s" "device s7 = device s" "sticky s7 = sticky s"
    by (simp_all add: s7_def free_def s6_def s5_def s4_def s3_def s2_def s1_def)
  then show ?thesis using run by blast
qed

lemma demo_conv_trace:
  "map_option (map_sum id trace) (conv2d_gpgpusim demo_env 0 1 2 2 3 1 2 1 1 demo_state)
     = Some (Inr [Api CudaMalloc cudaSuccess, Api CudaMalloc cudaSuccess,
         Api CudaMalloc cudaSuccess, Api CudaMemcpy cudaSuccess,
         Api CudaMemcpy cudaSuccess, Launch (1, 1, 1) (16, 16, 1),
         Api CudaMemcpy cudaSuccess, Api CudaFree cudaSuccess,
         Api CudaFree cudaSuccess, Api CudaFree cudaSuccess])"
  by code_simp

lemma gemm_ones:
  fixes g0 :: "'a::semiring_1 list"
  assumes "length g0 = 4096"
  shows "gemm_device_result (replicate 4096 1) (replicate 4096 1) g0 64 64 64 = replicate 4096 64"
proof (rule nth_equalityI)
  show "length (gemm_device_result (replicate 4096 1) (replicate 4096 1) g0 64 64 64) = length (replicate 4096 (64 :: 'a))"
    using assms by (simp add: length_gemm_device_result)
next
  fix p assume "p < length (gemm_device_result (replicate 4096 1) (replicate 4096 1) g0 64 64 64)"
  then have p: "p < 4096" using assms by (simp add: length_gemm_device_result)
  define row col where "row = int p div 64" and "col = int p mod 64"
  have rc: "0 \<le> row" "row < 64" "0 \<le> col" "col < 64" "int p = row * 64 + col"
    using p by (auto simp: row_def col_def)
  have pn: "p = nat (row * 64 + col)" using rc(5) by simp
  have terms: "map (\<lambda>k. padA (replicate 4096 (1 :: 'a)) 64 64 row k * padB (replicate 4096 1) 64 64 k col) [0..64 - 1]
      = map (\<lambda>k. 1) [0..64 - 1]"
  proof (rule map_cong[OF refl])
    fix k assume "k \<in> set [0..64 - 1]"
    then have k: "0 \<le> k" "k < 64" by auto
    have "0 \<le> row * 64 + k \<and> row * 64 + k < 64 * 64" using rc k by (intro idx2_bound) auto
    moreover have "0 \<le> k * 64 + col \<and> k * 64 + col < 64 * 64" using rc k by (intro idx2_bound) auto
    ultimately show "padA (replicate 4096 (1 :: 'a)) 64 64 row k * padB (replicate 4096 1) 64 64 k col = 1"
      using rc k by (simp add: padA_def padB_def nat_less_iff)
  qed
  have "gemm_device_result (replicate 4096 1) (replicate 4096 1) g0 64 64 64 ! nat (row * 64 + col)
      = gemm_padded (replicate 4096 1) (replicate 4096 1) 64 64 64 ((64 + 16 - 1) div 16 * 16) row col"
    using rc assms by (intro gemm_device_result_nth) auto
  also have "\<dots> = gemm_padded (replicate 4096 1) (replicate 4096 1) 64 64 64 64 row col"
    by simp
  also have "\<dots> = ordered_sum (map (\<lambda>k. 1) [0..64 - 1])"
    unfolding gemm_padded_def terms ..
  also have "\<dots> = (64 :: 'a)"
    by (simp add: ordered_sum_monoid sum_list_triv)
  finally show "gemm_device_result (replicate 4096 1) (replicate 4096 1) g0 64 64 64 ! p = replicate 4096 (64 :: 'a) ! p"
    using p pn by simp
qed

lemma gemm_main_run:
  fixes env :: "'a::semiring_1 cuda_env"
  assumes "\<And>site. api_status env site = cudaSuccess" "\<not> sticky s"
  shows "\<exists>A B C s1 dA dB dC s2 s3.
     gemm_main_init env s = Some (Inr (A, B, C, 64, 64, 64, s1)) \<and>
     host s1 C = Some (replicate 4096 0) \<and>
     gemm_device env A B 64 64 64 s1 = Some (Inr (dA, dB, dC, s2)) \<and>
     device s2 dC = Some (replicate 4096 64) \<and>
     gemm_kernel_test env A B C 64 64 64 s1 = Some (Inr s3) \<and>
     host s3 C = Some (replicate 4096 0) \<and> device s3 dC = None"
proof -
  define b where "b = brk s"
  from gemm_main_init_run[of env s] obtain s1 where
    i: "gemm_main_init env s = Some (Inr (b, b + 1, b + 2, 64, 64, 64, s1))"
    and h1: "host s1 = (host s)(b := Some (replicate 4096 1), b + 1 := Some (replicate 4096 1),
                        b + 2 := Some (replicate 4096 0))"
    and o1: "sticky s1 = sticky s" "brk s1 = b + 3"
    unfolding b_def by blast
  have hA: "host s1 b = Some (replicate 4096 1)" "host s1 (b + 1) = Some (replicate 4096 1)"
      "host s1 (b + 2) = Some (replicate 4096 0)"
    by (simp_all add: h1)
  have ns: "\<not> sticky s1" using o1 assms(2) by simp
  define g0 where "g0 = map (garbage env) [0..<nat (64 * 64)]"
  have lg: "length g0 = 4096" by (simp add: g0_def)
  have len: "int (length (replicate 4096 (1 :: 'a))) = 64 * 64" by simp
  have nn: "(0 :: int) \<le> 64" by simp
  from gemm_device_run[where M = 64 and N = 64 and K = 64 and env = env, OF nn nn nn hA(1) hA(2) len len assms(1) ns]
  obtain s2 where d: "gemm_device env b (b + 1) 64 64 64 s1 = Some (Inr (brk s1, brk s1 + 1, brk s1 + 2, s2))"
    and d2: "device s2 = (device s1)(brk s1 := Some (replicate 4096 1), brk s1 + 1 := Some (replicate 4096 1),
        brk s1 + 2 := Some (gemm_device_result (replicate 4096 1) (replicate 4096 1) g0 64 64 64))"
    unfolding g0_def by blast
  have dC: "device s2 (brk s1 + 2) = Some (replicate 4096 64)"
    unfolding d2 gemm_ones[OF lg] by (rule fun_upd_same)
  from gemm_kernel_test_run[where M = 64 and N = 64 and K = 64 and env = env and C = "b + 2",
      OF nn nn nn hA(1) hA(2) len len assms(1) ns]
  obtain s3 where t: "gemm_kernel_test env b (b + 1) (b + 2) 64 64 64 s1 = Some (Inr s3)"
    and t3: "host s3 = host s1" "device s3 = (device s1)(brk s1 := None, brk s1 + 1 := None, brk s1 + 2 := None)"
    by blast
  have hC: "host s3 (b + 2) = Some (replicate 4096 0)" unfolding t3(1) by (rule hA(3))
  have dN: "device s3 (brk s1 + 2) = None" unfolding t3(2) by (rule fun_upd_same)
  show ?thesis
    using i hA(3) d dC t hC dN by blast
qed

text \<open>
  Claim C2, as stated: after \<open>gemm_kernel_test\<close> returns in \<open>main\<close> (\<open>M = N = K = 64\<close>, \<open>A\<close> and
  \<open>B\<close> filled with 1, \<open>C\<close> with 0) the host buffer \<open>C\<close> holds the product, 64 everywhere.
  It does not: the copy of the result back to the host is commented out, and \<open>C\<close> still holds
  the zeros \<open>main\<close> wrote.
\<close>

theorem gemm_main_host_C_counterexample:
  "gemm_main_C_after_kernel_test demo_env demo_state = Some (replicate 4096 0) \<and>
   gemm_main_C_after_kernel_test demo_env demo_state \<noteq> Some (replicate 4096 64)"
proof -
  have e: "\<And>site. api_status demo_env site = cudaSuccess" by (simp add: demo_env_def)
  have n: "\<not> sticky demo_state" by (simp add: demo_state_def)
  from gemm_main_run[OF e n] obtain A B C s1 s3 where
    "gemm_main_init demo_env demo_state = Some (Inr (A, B, C, 64, 64, 64, s1))"
    "gemm_kernel_test demo_env A B C 64 64 64 s1 = Some (Inr s3)"
    "host s3 C = Some (replicate 4096 0)"
    by blast
  then have "gemm_main_C_after_kernel_test demo_env demo_state = Some (replicate 4096 0)"
    by (simp add: gemm_main_C_after_kernel_test_def)
  then show ?thesis by (simp add: replicate_eq_replicate)
qed

text \<open>
  Claim C2, amended: in \<open>main\<close>'s configuration, with every device call succeeding, the kernel
  launched by \<open>gemm_kernel_test\<close> leaves the product, 64 at every element, in the device
  buffer \<open>dC\<close> (the state after \<open>cudaDeviceSynchronize\<close>, \<open>gemm_device\<close>); the buffer is then
  freed without being copied, and when \<open>gemm_kernel_test\<close> returns the host buffer \<open>C\<close> holds
  the zeros it held before the call.
\<close>

theorem gemm_main_result_stays_on_device:
  fixes env :: "'a::semiring_1 cuda_env"
  assumes "\<And>site. api_status env site = cudaSuccess" "\<not> sticky s"
  shows "\<exists>A B C s1 dA dB dC s2 s3.
     gemm_main_init env s = Some (Inr (A, B, C, 64, 64, 64, s1)) \<and>
     host s1 C = Some (replicate 4096 0) \<and>
     gemm_device env A B 64 64 64 s1 = Some (Inr (dA, dB, dC, s2)) \<and>
     device s2 dC = Some (replicate 4096 64) \<and>
     gemm_kernel_test env A B C 64 64 64 s1 = Some (Inr s3) \<and>
     host s3 C = Some (replicate 4096 0) \<and> device s3 dC = None"
  using assms by (rule gemm_main_run)

theorem gemm_main_result_stays_on_device_witness:
  "\<exists>A B C s1 dA dB dC s2 s3.
     gemm_main_init demo_env demo_state = Some (Inr (A, B, C, 64, 64, 64, s1)) \<and>
     host s1 C = Some (replicate 4096 0) \<and>
     gemm_device demo_env A B 64 64 64 s1 = Some (Inr (dA, dB, dC, s2)) \<and>
     device s2 dC = Some (replicate 4096 64) \<and>
     gemm_kernel_test demo_env A B C 64 64 64 s1 = Some (Inr s3) \<and>
     host s3 C = Some (replicate 4096 0) \<and> device s3 dC = None"
proof -
  have e: "\<And>site. api_status demo_env site = cudaSuccess" by (simp add: demo_env_def)
  have n: "\<not> sticky demo_state" by (simp add: demo_state_def)
  show ?thesis using gemm_main_result_stays_on_device[OF e n] .
qed








text \<open>
  Claim C7, as stated: every convolution program of the repository is sequential and
  launches no kernel. The GPGPU-Sim convolution is not: its host function launches a kernel,
  here on a grid of one block of 16 x 16 threads.
\<close>

theorem conv2d_gpgpusim_launch_counterexample:
  "map_option (map_sum id trace) (conv2d_gpgpusim demo_env 0 1 2 2 3 1 2 1 1 demo_state)
     = Some (Inr [Api CudaMalloc cudaSuccess, Api CudaMalloc cudaSuccess,
         Api CudaMalloc cudaSuccess, Api CudaMemcpy cudaSuccess,
         Api CudaMemcpy cudaSuccess, Launch (1, 1, 1) (16, 16, 1),
         Api CudaMemcpy cudaSuccess, Api CudaFree cudaSuccess,
         Api CudaFree cudaSuccess, Api CudaFree cudaSuccess])"
  by (rule demo_conv_trace)

text \<open>
  Claim C7, amended: the gem5 convolution program is sequential: its \<open>main\<close> returns 0 having
  made no device call and no launch (the device and the trace of device events are as before).
  The GPGPU-Sim convolution program is parallel: with its device calls succeeding, \<open>conv2d\<close>
  makes exactly one kernel launch, on a grid of \<open>\<lceil>Wo/16\<rceil> x \<lceil>Ho/16\<rceil> x K\<close> blocks of
  \<open>16 x 16 x 1\<close> threads, between the copies to the device and the copy back.
\<close>

theorem conv_programs_device_use:
  fixes env0 :: "'b::{zero,one,plus,times} cuda_env" and inp wt buf :: "'a::{zero,plus,times} list"
  assumes "1 \<le> I" "I \<le> H" "1 \<le> J" "J \<le> W" "1 \<le> C" "1 \<le> K"
    and "host s input = Some inp" "host s weight = Some wt" "host s out = Some buf"
    and "int (length inp) = H * W * C" "int (length wt) = I * J * C * K"
      "int (length buf) = (H - I + 1) * (W - J + 1) * K"
    and "\<And>site. api_status env site = cudaSuccess"
    and "\<not> sticky s"
  shows "(\<exists>s'. conv_main_gem5 env0 tenth s0 = Some (Inr (0, s')) \<and> trace s' = trace s0 \<and> device s' = device s0) \<and>
    (\<exists>s'. conv2d_gpgpusim env input weight out H W I J C K s = Some (Inr s') \<and>
       trace s' = trace s @ [Api CudaMalloc cudaSuccess, Api CudaMalloc cudaSuccess, Api CudaMalloc cudaSuccess,
         Api CudaMemcpy cudaSuccess, Api CudaMemcpy cudaSuccess,
         Launch ((W - J + 1 + 16 - 1) div 16, (H - I + 1 + 16 - 1) div 16, (K + 1 - 1) div 1) (16, 16, 1),
         Api CudaMemcpy cudaSuccess, Api CudaFree cudaSuccess, Api CudaFree cudaSuccess, Api CudaFree cudaSuccess])"
proof
  show "\<exists>s'. conv_main_gem5 env0 tenth s0 = Some (Inr (0, s')) \<and> trace s' = trace s0 \<and> device s' = device s0"
    using conv_main_gem5_run[of env0 tenth s0] by blast
  show "\<exists>s'. conv2d_gpgpusim env input weight out H W I J C K s = Some (Inr s') \<and>
       trace s' = trace s @ [Api CudaMalloc cudaSuccess, Api CudaMalloc cudaSuccess, Api CudaMalloc cudaSuccess,
         Api CudaMemcpy cudaSuccess, Api CudaMemcpy cudaSuccess,
         Launch ((W - J + 1 + 16 - 1) div 16, (H - I + 1 + 16 - 1) div 16, (K + 1 - 1) div 1) (16, 16, 1),
         Api CudaMemcpy cudaSuccess, Api CudaFree cudaSuccess, Api CudaFree cudaSuccess, Api CudaFree cudaSuccess]"
    using conv2d_gpgpusim_run[of I H J W C K s input inp weight wt out buf env] assms by auto
qed

theorem conv_programs_device_use_witness:
  "(\<exists>s'. conv_main_gem5 demo_env 0 demo_state = Some (Inr (0, s')) \<and> trace s' = trace demo_state
       \<and> device s' = device demo_state) \<and>
   (\<exists>s'. conv2d_gpgpusim demo_env 0 1 2 2 3 1 2 1 1 demo_state = Some (Inr s') \<and>
       trace s' = [Api CudaMalloc cudaSuccess, Api CudaMalloc cudaSuccess, Api CudaMalloc cudaSuccess,
         Api CudaMemcpy cudaSuccess, Api CudaMemcpy cudaSuccess, Launch (1, 1, 1) (16, 16, 1),
         Api CudaMemcpy cudaSuccess, Api CudaFree cudaSuccess, Api CudaFree cudaSuccess, Api CudaFree cudaSuccess])"
  using conv_programs_device_use[of 1 2 2 3 1 1 demo_state 0 "[1, 2, 3, 4, 5, 6]" 1 "[1, 10]" 2 "[0, 0, 0, 0]"
      demo_env demo_env 0 demo_state]
  by (simp add: demo_env_def demo_state_def)

text \<open>
  Claim C8. \<open>gemm_kernel_test\<close> never writes to host memory: whenever it returns, the host
  heap, and with it the buffers \<open>A\<close>, \<open>B\<close> and \<open>C\<close> it was passed, is what it was before the
  call, whatever the buffers held (the copy of the result to the host is disabled).
\<close>

theorem gemm_kernel_test_host_frame:
  assumes "gemm_kernel_test env A B C M N K s = Some (Inr s')"
  shows "host s' = host s \<and> host s' A = host s A \<and> host s' B = host s B \<and> host s' C = host s C"
  using gemm_kernel_test_returns[OF assms] by simp

theorem gemm_kernel_test_host_frame_witness:
  "\<exists>s'. gemm_kernel_test demo_env 0 1 2 3 1 2 demo_state = Some (Inr s') \<and>
     host s' 2 = Some [0, 0, 0, 0]"
proof -
  have e: "\<And>site. api_status demo_env site = cudaSuccess" by (simp add: demo_env_def)
  from gemm_kernel_test_run[where M = 3 and N = 1 and K = 2 and s = demo_state and A = 0 and B = 1
      and ha = "[1, 2, 3, 4, 5, 6]" and hb = "[1, 10]" and env = demo_env and C = 2, OF _ _ _ _ _ _ _ e]
  obtain s' where r: "gemm_kernel_test demo_env 0 1 2 3 1 2 demo_state = Some (Inr s')"
    by (auto simp: demo_state_def)
  from gemm_kernel_test_host_frame[OF r] have "host s' 2 = Some [0, 0, 0, 0]"
    by (simp add: demo_state_def)
  with r show ?thesis by blast
qed

end
